theory Spec2Isabelle
  imports Complex_Main "HOL-Library.AList" "HOL-Library.Sublist"
begin

section \<open>Thumbnail derivation pipeline: size formatter\<close>

text \<open>
  The development follows \<^verbatim>\<open>src/utils.ts\<close> (class \<^verbatim>\<open>ImageProcessor\<close>) and
  \<^verbatim>\<open>src/config.ts\<close>.  JavaScript numbers that hold integers are modelled as \<open>int\<close>,
  the running value of the division loop as \<open>rat\<close>: dividing a binary floating-point
  number by 1024 only lowers its exponent, so every quotient the loop computes is the
  exact rational.
\<close>

subsection \<open>Decimal digits\<close>

definition digit_char :: "nat \<Rightarrow> char" where
  "digit_char d = ''0123456789'' ! (d mod 10)"

fun digits_of :: "nat \<Rightarrow> string" where
  "digits_of n = (if n < 10 then [digit_char n] else digits_of (n div 10) @ [digit_char (n mod 10)])"

declare digits_of.simps [simp del]

definition is_digit :: "char \<Rightarrow> bool" where
  "is_digit c = (c \<in> set ''0123456789'')"

definition digit_val :: "char \<Rightarrow> nat" where
  "digit_val c = of_char c - 48"

definition digits_val :: "string \<Rightarrow> nat" where
  "digits_val ds = foldl (\<lambda>acc c. 10 * acc + digit_val c) 0 ds"

subsection \<open>\<^verbatim>\<open>Number.prototype.toString\<close> and \<^verbatim>\<open>parseInt\<close> on integral numbers\<close>

text \<open>
  A JavaScript number has 53 significant bits.  \<open>nearest_double\<close> is the number nearest
  to a non-negative integer, a tie going to the even significand; an integral number is a
  fixed point of it.  (Integers from \<open>2^1024\<close> on are beyond the finite numbers and are
  no input of the method.)
\<close>

fun bit_length :: "nat \<Rightarrow> nat" where
  "bit_length n = (if n = 0 then 0 else Suc (bit_length (n div 2)))"

declare bit_length.simps [simp del]

definition nearest_double :: "nat \<Rightarrow> nat" where
  "nearest_double m =
     (let e = bit_length m - 53; q = m div 2 ^ e; r = m mod 2 ^ e
      in if 2 ^ e < 2 * r \<or> (2 * r = 2 ^ e \<and> odd q) then (q + 1) * 2 ^ e else q * 2 ^ e)"

text \<open>
  \<^verbatim>\<open>Number.prototype.toString\<close> prints the decimal with the fewest significant digits
  that reads back as the same number.  \<open>round_trip_candidate x p\<close> looks at the two
  multiples of \<open>p\<close> around \<open>x\<close>: of those that read back as \<open>x\<close> it gives the one nearer
  to \<open>x\<close>, the one with the even digit string on a tie.  \<open>shortest_decimal\<close> tries
  \<open>p = 10^(n-1), 10^(n-2), \<dots>\<close> for a number of \<open>n\<close> digits, that is one significant
  digit, then two, and so on.
\<close>

definition round_trip_candidate :: "nat \<Rightarrow> nat \<Rightarrow> nat option" where
  "round_trip_candidate x p =
     (let lo = (x div p) * p; hi = lo + p;
          ok_lo = (nearest_double lo = x); ok_hi = (nearest_double hi = x)
      in if ok_lo \<and> ok_hi then
           (if x - lo < hi - x then Some lo
            else if hi - x < x - lo then Some hi
            else if even (x div p) then Some lo else Some hi)
         else if ok_lo then Some lo
         else if ok_hi then Some hi
         else None)"

function shortest_search :: "nat \<Rightarrow> nat \<Rightarrow> nat \<Rightarrow> nat" where
  "shortest_search x n k =
     (if n \<le> k then x
      else case round_trip_candidate x (10 ^ (n - k)) of
             Some v \<Rightarrow> v
           | None \<Rightarrow> shortest_search x n (Suc k))"
  by pat_completeness auto
termination
  by (relation "measure (\<lambda>(x, n, k). n - k)") auto

declare shortest_search.simps [simp del]

definition shortest_decimal :: "nat \<Rightarrow> nat" where
  "shortest_decimal x = shortest_search x (length (digits_of x)) 1"

text \<open>
  \<^verbatim>\<open>bytes.toString()\<close>: from \<open>10^21\<close> on ECMAScript uses exponent notation, the first
  digit of the shortest decimal, its remaining significant digits after a point, and
  \<^verbatim>\<open>e+\<close> with the exponent.  Below \<open>10^21\<close> it prints the shortest decimal in full, and
  \<^verbatim>\<open>parseInt\<close> reads it back as the number nearest to it, which is the number that was
  printed; there the model prints the digits of the number itself and reads them back
  exactly, with the same result.
\<close>

definition strip_zeros :: "string \<Rightarrow> string" where
  "strip_zeros ds = rev (dropWhile (\<lambda>c. c = CHR ''0'') (rev ds))"

definition nat_toString :: "nat \<Rightarrow> string" where
  "nat_toString m =
     (if m < 10 ^ 21 then digits_of m
      else let ds = digits_of (shortest_decimal (nearest_double m)); s = strip_zeros ds
           in [hd s] @ (if length s = 1 then [] else ''.'' @ tl s)
                @ ''e+'' @ digits_of (length ds - 1))"

definition toString :: "int \<Rightarrow> string" where
  "toString b = (if b < 0 then ''-'' @ nat_toString (nat (- b)) else nat_toString (nat b))"

text \<open>
  \<^verbatim>\<open>parseInt(s, 10)\<close>: skip leading white space, take an optional sign, then the longest
  run of decimal digits; no digit at all gives \<^verbatim>\<open>NaN\<close>, here \<open>None\<close>.  Of the white
  space characters only the ASCII ones are listed: the strings parsed here come from
  \<open>toString\<close> and hold none.
\<close>

definition is_space :: "char \<Rightarrow> bool" where
  "is_space c = (c \<in> {CHR '' '', CHR 0x09, CHR 0x0A, CHR 0x0B, CHR 0x0C, CHR 0x0D})"

definition parseInt :: "string \<Rightarrow> int option" where
  "parseInt str =
     (let s = dropWhile is_space str;
          neg = (s \<noteq> [] \<and> hd s = CHR ''-'');
          s' = (if s \<noteq> [] \<and> (hd s = CHR ''-'' \<or> hd s = CHR ''+'') then tl s else s);
          z = takeWhile is_digit s'
      in if z = [] then None
         else Some (if neg then - int (digits_val z) else int (digits_val z)))"

text \<open>\<^verbatim>\<open>x || 0\<close>: \<^verbatim>\<open>NaN\<close> and zero are falsy.\<close>

definition or_zero :: "int option \<Rightarrow> int" where
  "or_zero x = (case x of None \<Rightarrow> 0 | Some v \<Rightarrow> (if v = 0 then 0 else v))"

subsection \<open>\<^verbatim>\<open>Number.prototype.toFixed\<close>\<close>

text \<open>
  \<^verbatim>\<open>x.toFixed(f)\<close> for \<open>\<bar>x\<bar> < 10^21\<close>: the sign, then the integer \<open>n\<close> for which
  \<open>n / 10^f\<close> is closest to \<open>\<bar>x\<bar>\<close> (the larger one on a tie), printed with a point
  before its last \<open>f\<close> digits and padded with zeros on the left to \<open>f + 1\<close> digits.
  Larger values, which ECMAScript prints in exponent notation, never reach the call in
  \<^verbatim>\<open>humanReadableSize\<close> (lemma \<open>toFixed_argument_in_range\<close> below).
\<close>

definition toFixed :: "rat \<Rightarrow> nat \<Rightarrow> string" where
  "toFixed x f =
     (let s = (if x < 0 then ''-'' else '''');
          x' = (if x < 0 then - x else x);
          n = nat \<lfloor>x' * 10 ^ f + 1 / 2\<rfloor>;
          m = digits_of n;
          m' = (if f \<noteq> 0
                then (let k = length m;
                          z = (if k \<le> f then replicate (f + 1 - k) CHR ''0'' @ m else m);
                          k' = length z
                      in take (k' - f) z @ ''.'' @ drop (k' - f) z)
                else m)
      in s @ m')"

subsection \<open>\<^verbatim>\<open>ImageProcessor.humanReadableSize\<close>\<close>

definition units :: "string list" where
  "units = [''B'', ''KB'', ''MB'', ''GB'', ''TB'', ''PB'', ''EB'', ''ZB'', ''YB'']"

text \<open>
  \<^verbatim>\<open>while (n >= 1024 && ++l) { n = n / 1024; }\<close>: the increment happens only when the
  first conjunct holds, and its value, the new \<open>l\<close>, is never zero.
\<close>

function divide_loop :: "rat \<Rightarrow> nat \<Rightarrow> rat \<times> nat" where
  "divide_loop n l =
     (if 1024 \<le> n \<and> l + 1 \<noteq> 0 then divide_loop (n / 1024) (l + 1) else (n, l))"
  by pat_completeness auto
termination
proof (relation "measure (\<lambda>(n, l). nat \<lfloor>n\<rfloor>)")
  show "wf (measure (\<lambda>(n :: rat, l :: nat). nat \<lfloor>n\<rfloor>))"
    by simp
next
  fix n :: rat and l :: nat
  assume a: "1024 \<le> n \<and> l + 1 \<noteq> 0"
  then have "n / 1024 + 1 \<le> n"
    by simp
  then have "\<lfloor>n / 1024 + 1\<rfloor> \<le> \<lfloor>n\<rfloor>"
    by (rule floor_mono)
  then have "\<lfloor>n / 1024\<rfloor> + 1 \<le> \<lfloor>n\<rfloor>"
    by simp
  moreover have "0 \<le> \<lfloor>n / 1024\<rfloor>"
    using a by simp
  ultimately have "nat \<lfloor>n / 1024\<rfloor> < nat \<lfloor>n\<rfloor>"
    by linarith
  then show "((n / 1024, l + 1), (n, l)) \<in> measure (\<lambda>(n, l). nat \<lfloor>n\<rfloor>)"
    by simp
qed

declare divide_loop.simps [simp del]

text \<open>
  \<^verbatim>\<open>units[l]\<close> past the end of the array is \<^verbatim>\<open>undefined\<close>, which string
  concatenation prints as the word.
\<close>

definition unit_at :: "nat \<Rightarrow> string" where
  "unit_at l = (if l < length units then units ! l else ''undefined'')"

definition humanReadableSize :: "int \<Rightarrow> string" where
  "humanReadableSize bytes =
     (let n0 = or_zero (parseInt (toString bytes));
          (n, l) = divide_loop (of_int n0) 0
      in toFixed n (if n < 10 \<and> l > 0 then 1 else 0) @ '' '' @ unit_at l)"

text \<open>
  The algorithm as the specification words it, for a non-negative byte count: the running
  value starts at the input, is divided by 1024 while it is at least 1024, and is then
  printed with no decimals if nothing was divided or the value is at least 10, with one
  decimal otherwise.
\<close>

function spec_loop :: "rat \<Rightarrow> nat \<Rightarrow> rat \<times> nat" where
  "spec_loop v i = (if 1024 \<le> v then spec_loop (v / 1024) (i + 1) else (v, i))"
  by pat_completeness auto
termination
proof (relation "measure (\<lambda>(v, i). nat \<lfloor>v\<rfloor>)")
  show "wf (measure (\<lambda>(v :: rat, i :: nat). nat \<lfloor>v\<rfloor>))"
    by simp
next
  fix v :: rat and i :: nat
  assume a: "1024 \<le> v"
  then have "v / 1024 + 1 \<le> v"
    by simp
  then have "\<lfloor>v / 1024 + 1\<rfloor> \<le> \<lfloor>v\<rfloor>"
    by (rule floor_mono)
  then have "\<lfloor>v / 1024\<rfloor> + 1 \<le> \<lfloor>v\<rfloor>"
    by simp
  moreover have "0 \<le> \<lfloor>v / 1024\<rfloor>"
    using a by simp
  ultimately have "nat \<lfloor>v / 1024\<rfloor> < nat \<lfloor>v\<rfloor>"
    by linarith
  then show "((v / 1024, i + 1), (v, i)) \<in> measure (\<lambda>(v, i). nat \<lfloor>v\<rfloor>)"
    by simp
qed

declare spec_loop.simps [simp del]

definition humanReadableSize_spec :: "nat \<Rightarrow> string" where
  "humanReadableSize_spec bytes =
     (let (v, i) = spec_loop (of_nat bytes) 0
      in toFixed v (if i = 0 \<or> 10 \<le> v then 0 else 1) @ '' '' @ unit_at i)"

section \<open>Paths and configuration\<close>

subsection \<open>\<^verbatim>\<open>path.join\<close> (POSIX)\<close>

text \<open>
  Node's \<^verbatim>\<open>path.join\<close> concatenates its non-empty arguments with \<^verbatim>\<open>/\<close> and
  normalises the result: empty and \<^verbatim>\<open>.\<close> segments disappear, a \<^verbatim>\<open>..\<close> segment
  removes the segment before it (or is kept at the front of a relative path), and a
  leading and a trailing separator are preserved.
\<close>

fun segments :: "string \<Rightarrow> string list" where
  "segments [] = [[]]"
| "segments (c # cs) =
     (if c = CHR ''/'' then [] # segments cs
      else (case segments cs of [] \<Rightarrow> [[c]] | s # ss \<Rightarrow> (c # s) # ss))"

fun join_slash :: "string list \<Rightarrow> string" where
  "join_slash [] = []"
| "join_slash [s] = s"
| "join_slash (s # t # ss) = s @ ''/'' @ join_slash (t # ss)"

definition normalize_step :: "bool \<Rightarrow> string list \<Rightarrow> string \<Rightarrow> string list" where
  "normalize_step allowAboveRoot res seg =
     (if seg = [] \<or> seg = ''.'' then res
      else if seg = ''..'' then
        (if res \<noteq> [] \<and> last res \<noteq> ''..'' then butlast res
         else if allowAboveRoot then res @ [''..'']
         else res)
      else res @ [seg])"

definition normalizeString :: "string \<Rightarrow> bool \<Rightarrow> string list" where
  "normalizeString p allowAboveRoot = foldl (normalize_step allowAboveRoot) [] (segments p)"

definition normalize_path :: "string \<Rightarrow> string" where
  "normalize_path p =
     (if p = [] then ''.''
      else let isAbsolute = (hd p = CHR ''/'');
               trailingSeparator = (last p = CHR ''/'');
               res = normalizeString p (\<not> isAbsolute)
           in if res = [] then (if isAbsolute then ''/'' else if trailingSeparator then ''./'' else ''.'')
              else (if isAbsolute then ''/'' else []) @ join_slash res
                     @ (if trailingSeparator then ''/'' else []))"

definition join :: "string list \<Rightarrow> string" where
  "join args =
     (let parts = filter (\<lambda>a. a \<noteq> []) args
      in if parts = [] then ''.'' else normalize_path (join_slash parts))"

subsection \<open>\<^verbatim>\<open>config.filePaths\<close>\<close>

text \<open>\<open>dirname\<close> stands for \<^verbatim>\<open>path.resolve(__dirname)\<close>, the directory of the modules.\<close>

definition uploadDir :: "string \<Rightarrow> string" where
  "uploadDir dirname = join [dirname, ''uploads'']"

definition config_filePaths :: "string \<Rightarrow> (string \<times> string) list" where
  "config_filePaths dirname =
     [(''uploadDir'', uploadDir dirname),
      (''uploadDirTemp'', join [uploadDir dirname, ''temp'']),
      (''THUMB_50x50'', join [uploadDir dirname, ''temp'', ''thumbs'', ''50x50'']),
      (''THUMB_150x150'', join [uploadDir dirname, ''temp'', ''thumbs'', ''150x150'']),
      (''THUMB_250x250'', join [uploadDir dirname, ''temp'', ''thumbs'', ''250x250'']),
      (''THUMB_500x500'', join [uploadDir dirname, ''temp'', ''thumbs'', ''500x500'']),
      (''THUMB_1000x1000'', join [uploadDir dirname, ''temp'', ''thumbs'', ''1000x1000'']),
      (''THUMB_2000x2000'', join [uploadDir dirname, ''temp'', ''thumbs'', ''2000x2000''])]"

section \<open>The thumbnail pipeline\<close>

subsection \<open>The world: file system, console, resize primitive\<close>

text \<open>
  The file system maps each path that \<^verbatim>\<open>fs.statSync\<close> resolves to the size it reports.
  The two primitives the class calls but does not implement are parameters: \<open>sharp\<close>
  is \<^verbatim>\<open>sharp(inputPath).resize(width, height).toFile(outputPath)\<close>, which yields the
  message of the error it rejects with, if any, and the file system it leaves behind;
  \<open>mkdir\<close> is \<^verbatim>\<open>fs.mkdirSync(path, { recursive: true })\<close>.  Every invocation of the
  resize primitive is recorded in \<open>resize_calls\<close>.  A call of \<^verbatim>\<open>processImage\<close> is
  modelled on its own: between its steps nothing but the resize primitive changes the
  file system.  An exception that leaves the method is the value \<open>Inl\<close> of its result.
\<close>

type_synonym filesystem = "string \<rightharpoonup> nat"

type_synonym sharp = "filesystem \<Rightarrow> string \<Rightarrow> string \<Rightarrow> nat \<Rightarrow> nat \<Rightarrow> string option \<times> filesystem"

type_synonym mkdir = "filesystem \<Rightarrow> string \<Rightarrow> filesystem"

record world =
  files :: filesystem
  console :: "string list"
  resize_calls :: "(string \<times> string \<times> nat \<times> nat) list"

datatype error = ENOENT string | TypeError string

definition statSync :: "world \<Rightarrow> string \<Rightarrow> error + nat" where
  "statSync w p = (case files w p of None \<Rightarrow> Inl (ENOENT p) | Some sz \<Rightarrow> Inr sz)"

subsection \<open>\<^verbatim>\<open>ImageProcessor\<close>\<close>

record ImageProcessor =
  baseDir :: string
  filePaths :: "(string \<times> string) list"

text \<open>The constructor: both fields, and a directory for every entry of the configuration.\<close>

definition ImageProcessor_new :: "mkdir \<Rightarrow> string \<Rightarrow> world \<Rightarrow> ImageProcessor \<times> world" where
  "ImageProcessor_new mkdirSync dirname w =
     (let self = \<lparr>baseDir = dirname, filePaths = config_filePaths dirname\<rparr>;
          fs' = foldl (\<lambda>fs key. case map_of (filePaths self) key of
                                    None \<Rightarrow> fs
                                  | Some p \<Rightarrow> (if fs p = None then mkdirSync fs p else fs))
                  (files w) (map fst (config_filePaths dirname))
      in (self, w\<lparr>files := fs'\<rparr>))"

definition resizeImage :: "sharp \<Rightarrow> string \<Rightarrow> string \<Rightarrow> nat \<Rightarrow> nat \<Rightarrow> world \<Rightarrow> world" where
  "resizeImage sharp inputPath outputPath width height w =
     (let (err, fs') = sharp (files w) inputPath outputPath width height;
          w' = w\<lparr>files := fs',
                 resize_calls := resize_calls w @ [(inputPath, outputPath, width, height)]\<rparr>
      in case err of
           None \<Rightarrow> w'
         | Some message \<Rightarrow> w'\<lparr>console := console w' @ [''Failed to resize image. Error: '' @ message]\<rparr>)"

record dims =
  width :: nat
  height :: nat

definition mappings :: "(string \<times> dims) list" where
  "mappings =
     [(''THUMB_50x50'', \<lparr>width = 50, height = 50\<rparr>),
      (''THUMB_150x150'', \<lparr>width = 150, height = 150\<rparr>),
      (''THUMB_250x250'', \<lparr>width = 250, height = 250\<rparr>),
      (''THUMB_500x500'', \<lparr>width = 500, height = 500\<rparr>),
      (''THUMB_1000x1000'', \<lparr>width = 1000, height = 1000\<rparr>),
      (''THUMB_2000x2000'', \<lparr>width = 2000, height = 2000\<rparr>)]"

record thumbnail =
  path :: string
  size' :: string
  originalSize :: string

record manifest =
  original :: string
  thumbnails :: "(string \<times> thumbnail) list"

text \<open>
  The body of the \<^verbatim>\<open>for (const key in mappings)\<close> loop.  \<^verbatim>\<open>path.join\<close> throws a
  \<^verbatim>\<open>TypeError\<close> on an argument that is not a string, which is what
  \<^verbatim>\<open>this.filePaths[key]\<close> is for a key the configuration lacks; \<^verbatim>\<open>fs.statSync\<close>
  throws on a path that does not exist.
\<close>

definition processVariant ::
  "sharp \<Rightarrow> ImageProcessor \<Rightarrow> string \<Rightarrow> string \<Rightarrow> string \<Rightarrow> world \<Rightarrow> (error + thumbnail) \<times> world" where
  "processVariant sharp self imagePath originalFilename key w =
     (case map_of (filePaths self) key of
        None \<Rightarrow> (Inl (TypeError ''ERR_INVALID_ARG_TYPE''), w)
      | Some dir \<Rightarrow>
          (let outputPath = join [dir, originalFilename]
           in case map_of mappings key of
                None \<Rightarrow> (Inl (TypeError ''Cannot read properties of undefined''), w)
              | Some d \<Rightarrow>
                  (let w1 = resizeImage sharp imagePath outputPath (width d) (height d) w
                   in case statSync w1 imagePath of
                        Inl e \<Rightarrow> (Inl e, w1)
                      | Inr originalStats \<Rightarrow>
                          (let originalFileSizeInBytes = humanReadableSize (int originalStats)
                           in case statSync w1 outputPath of
                                Inl e \<Rightarrow> (Inl e, w1)
                              | Inr stats \<Rightarrow>
                                  (let fileSizeInBytes = humanReadableSize (int stats)
                                   in (Inr \<lparr>path = outputPath, size' = fileSizeInBytes,
                                            originalSize = originalFileSizeInBytes\<rparr>, w1))))))"

fun processImage_loop ::
  "sharp \<Rightarrow> ImageProcessor \<Rightarrow> string \<Rightarrow> string \<Rightarrow> string list \<Rightarrow> (string \<times> thumbnail) list
     \<Rightarrow> world \<Rightarrow> (error + (string \<times> thumbnail) list) \<times> world" where
  "processImage_loop sharp self imagePath originalFilename [] result w = (Inr result, w)"
| "processImage_loop sharp self imagePath originalFilename (key # keys) result w =
     (case processVariant sharp self imagePath originalFilename key w of
        (Inl e, w1) \<Rightarrow> (Inl e, w1)
      | (Inr t, w1) \<Rightarrow>
          processImage_loop sharp self imagePath originalFilename keys (AList.update key t result) w1)"

definition processImage ::
  "sharp \<Rightarrow> ImageProcessor \<Rightarrow> string \<Rightarrow> string \<Rightarrow> world \<Rightarrow> (error + manifest) \<times> world" where
  "processImage sharp self imagePath originalFilename w =
     (case processImage_loop sharp self imagePath originalFilename (map fst mappings) [] w of
        (Inl e, w') \<Rightarrow> (Inl e, w')
      | (Inr result, w') \<Rightarrow> (Inr \<lparr>original = imagePath, thumbnails = result\<rparr>, w'))"

subsection \<open>A sample run\<close>

text \<open>
  The values used in the examples below: a resize primitive that writes a file of 1500
  bytes, one that rejects its input, a processor for modules in \<^verbatim>\<open>/app\<close>, a file
  system with an uploaded image of 1023 bytes and a stale, empty derivative at the
  150x150 path, and the manifest \<^verbatim>\<open>processImage\<close> returns there.
\<close>

abbreviation example_sharp :: sharp where
  "example_sharp \<equiv> (\<lambda>fs inputPath outputPath wd ht. (None, fs(outputPath \<mapsto> 1500)))"

abbreviation failing_sharp :: sharp where
  "failing_sharp \<equiv> (\<lambda>fs inputPath outputPath wd ht. (Some ''Input file contains unsupported image format'', fs))"

abbreviation example_self :: ImageProcessor where
  "example_self \<equiv> \<lparr>baseDir = ''/app'', filePaths = config_filePaths ''/app''\<rparr>"

abbreviation example_world :: world where
  "example_world \<equiv>
     \<lparr>files = [''/app/uploads/temp/in.png'' \<mapsto> 1023,
                ''/app/uploads/temp/thumbs/150x150/in.png'' \<mapsto> 0],
      console = [], resize_calls = []\<rparr>"

abbreviation example_manifest :: manifest where
  "example_manifest \<equiv>
     \<lparr>original = ''/app/uploads/temp/in.png'',
      thumbnails =
        [(''THUMB_50x50'', \<lparr>path = ''/app/uploads/temp/thumbs/50x50/in.png'', size' = ''1.5 KB'', originalSize = ''1023 B''\<rparr>),
         (''THUMB_150x150'', \<lparr>path = ''/app/uploads/temp/thumbs/150x150/in.png'', size' = ''1.5 KB'', originalSize = ''1023 B''\<rparr>),
         (''THUMB_250x250'', \<lparr>path = ''/app/uploads/temp/thumbs/250x250/in.png'', size' = ''1.5 KB'', originalSize = ''1023 B''\<rparr>),
         (''THUMB_500x500'', \<lparr>path = ''/app/uploads/temp/thumbs/500x500/in.png'', size' = ''1.5 KB'', originalSize = ''1023 B''\<rparr>),
         (''THUMB_1000x1000'', \<lparr>path = ''/app/uploads/temp/thumbs/1000x1000/in.png'', size' = ''1.5 KB'', originalSize = ''1023 B''\<rparr>),
         (''THUMB_2000x2000'', \<lparr>path = ''/app/uploads/temp/thumbs/2000x2000/in.png'', size' = ''1.5 KB'', originalSize = ''1023 B''\<rparr>)]\<rparr>"

section \<open>Properties\<close>

subsection \<open>Digits, printing and parsing\<close>

lemma floor_rat_numeral_div: "\<lfloor>(numeral a :: rat) / numeral b\<rfloor> = numeral a div numeral b"
  using floor_divide_of_int_eq [of "numeral a" "numeral b", where ?'a = rat] by simp

lemma mod10_cases: "(d::nat) mod 10 \<in> {0, 1, 2, 3, 4, 5, 6, 7, 8, 9}"
proof -
  have "d mod 10 < 10" by simp
  then show ?thesis by (simp only: insert_iff empty_iff) arith
qed

lemma digit_char_is_digit: "is_digit (digit_char d)"
  using mod10_cases [of d] by (auto simp: digit_char_def is_digit_def)

lemma digit_val_digit_char: "digit_val (digit_char d) = d mod 10"
  using mod10_cases [of d] by (auto simp: digit_char_def digit_val_def)

lemma digits_of_nonempty: "digits_of n \<noteq> []"
  by (subst digits_of.simps) simp

lemma digits_val_snoc: "digits_val (xs @ [c]) = 10 * digits_val xs + digit_val c"
  by (simp add: digits_val_def)

lemma digits_val_digits_of: "digits_val (digits_of n) = n"
proof (induction n rule: digits_of.induct)
  case (1 n)
  show ?case
  proof (cases "n < 10")
    case True
    then show ?thesis
      by (subst digits_of.simps) (simp add: digits_val_def digit_val_digit_char)
  next
    case False
    then have "digits_val (digits_of (n div 10)) = n div 10"
      using "1.IH" by simp
    with False show ?thesis
      by (subst digits_of.simps) (simp add: digits_val_snoc digit_val_digit_char)
  qed
qed

lemma digits_of_all_digits: "c \<in> set (digits_of n) \<Longrightarrow> is_digit c"
proof (induction n rule: digits_of.induct)
  case (1 n)
  show ?case
  proof (cases "n < 10")
    case True
    with "1.prems" show ?thesis
      by (subst (asm) digits_of.simps) (simp add: digit_char_is_digit)
  next
    case False
    with "1.prems" "1.IH" show ?thesis
      by (subst (asm) digits_of.simps) (auto simp: digit_char_is_digit)
  qed
qed


lemma is_digit_not_space: "is_digit c \<Longrightarrow> \<not> is_space c"
  by (auto simp: is_digit_def is_space_def)

lemma is_digit_not_sign: "is_digit c \<Longrightarrow> c \<noteq> CHR ''-'' \<and> c \<noteq> CHR ''+''"
  by (auto simp: is_digit_def)

lemma hd_digits_of_is_digit: "is_digit (hd (digits_of n))"
  using digits_of_all_digits [of "hd (digits_of n)" n] digits_of_nonempty [of n] by simp

lemma takeWhile_digits_of: "takeWhile is_digit (digits_of n) = digits_of n"
  by (simp add: takeWhile_eq_all_conv digits_of_all_digits)

lemma dropWhile_space_digits_of: "dropWhile is_space (digits_of n) = digits_of n"
  using hd_digits_of_is_digit [of n] digits_of_nonempty [of n]
  by (cases "digits_of n") (auto dest: is_digit_not_space)

lemma parseInt_digits_of: "parseInt (digits_of n) = Some (int n)"
  using hd_digits_of_is_digit [of n] digits_of_nonempty [of n]
  by (auto simp: parseInt_def Let_def dropWhile_space_digits_of takeWhile_digits_of
        digits_val_digits_of dest: is_digit_not_sign)

lemma parseInt_minus_digits_of: "parseInt (CHR ''-'' # digits_of n) = Some (- int n)"
  by (simp add: parseInt_def Let_def is_space_def takeWhile_digits_of digits_val_digits_of
        digits_of_nonempty)

lemma parse_toString_small:
  assumes "\<bar>b\<bar> < 10 ^ 21"
  shows "or_zero (parseInt (toString b)) = b"
proof (cases "b < 0")
  case True
  with assms have "nat (- b) < 10 ^ 21"
    by (simp add: nat_less_iff)
  with True show ?thesis
    by (simp add: toString_def nat_toString_def parseInt_minus_digits_of or_zero_def)
next
  case False
  with assms have "nat b < 10 ^ 21"
    by (simp add: nat_less_iff)
  with False show ?thesis
    by (simp add: toString_def nat_toString_def parseInt_digits_of or_zero_def)
qed

subsection \<open>The parsed value is bounded\<close>

text \<open>
  Below \<open>10^21\<close> in magnitude, printing and parsing give the number back.  From there on
  the printed form is a digit followed by \<^verbatim>\<open>.\<close> or \<^verbatim>\<open>e\<close>, so that at most that
  one digit is read.
\<close>

lemma digit_val_le: "is_digit c \<Longrightarrow> digit_val c \<le> 9"
  by (auto simp: is_digit_def digit_val_def)

lemma parseInt_lead:
  assumes "x = CHR ''.'' \<or> x = CHR ''e''"
  shows "\<bar>or_zero (parseInt (c # x # xs))\<bar> \<le> 9"
proof -
  have x: "\<not> is_digit x" "\<not> is_space x" "x \<noteq> CHR ''-''" "x \<noteq> CHR ''+''"
    using assms by (auto simp: is_digit_def is_space_def)
  show ?thesis
  proof (cases "is_digit c")
    case True
    then have "parseInt (c # x # xs) = Some (int (digit_val c))"
      using x by (auto simp: parseInt_def Let_def digits_val_def dest: is_digit_not_space is_digit_not_sign)
    with digit_val_le [OF True] show ?thesis
      by (simp add: or_zero_def)
  next
    case False
    then have "parseInt (c # x # xs) = None"
      using x by (auto simp: parseInt_def Let_def)
    then show ?thesis
      by (simp add: or_zero_def)
  qed
qed

lemma parseInt_minus_lead:
  assumes "x = CHR ''.'' \<or> x = CHR ''e''"
  shows "\<bar>or_zero (parseInt (CHR ''-'' # c # x # xs))\<bar> \<le> 9"
proof -
  have x: "\<not> is_digit x"
    using assms by (auto simp: is_digit_def)
  show ?thesis
  proof (cases "is_digit c")
    case True
    then have "parseInt (CHR ''-'' # c # x # xs) = Some (- int (digit_val c))"
      using x by (simp add: parseInt_def Let_def digits_val_def is_space_def)
    with digit_val_le [OF True] show ?thesis
      by (simp add: or_zero_def)
  next
    case False
    then have "parseInt (CHR ''-'' # c # x # xs) = None"
      by (simp add: parseInt_def Let_def is_space_def)
    then show ?thesis
      by (simp add: or_zero_def)
  qed
qed

lemma nat_toString_big_shape:
  assumes "\<not> m < 10 ^ 21"
  shows "\<exists>c x xs. nat_toString m = c # x # xs \<and> (x = CHR ''.'' \<or> x = CHR ''e'')"
  using assms by (simp add: nat_toString_def Let_def)

lemma parse_toString_bound: "\<bar>or_zero (parseInt (toString b))\<bar> < 10 ^ 21"
proof (cases "\<bar>b\<bar> < 10 ^ 21")
  case True
  then show ?thesis
    by (simp add: parse_toString_small)
next
  case False
  show ?thesis
  proof (cases "b < 0")
    case True
    with False have "\<not> nat (- b) < 10 ^ 21"
      by (simp add: nat_less_iff)
    from nat_toString_big_shape [OF this] obtain c x xs
      where "nat_toString (nat (- b)) = c # x # xs" "x = CHR ''.'' \<or> x = CHR ''e''"
      by blast
    with True parseInt_minus_lead [of x c xs] show ?thesis
      by (simp add: toString_def)
  next
    case nonneg: False
    with False have "\<not> nat b < 10 ^ 21"
      by (simp add: nat_less_iff)
    from nat_toString_big_shape [OF this] obtain c x xs
      where "nat_toString (nat b) = c # x # xs" "x = CHR ''.'' \<or> x = CHR ''e''"
      by blast
    with nonneg parseInt_lead [of x c xs] show ?thesis
      by (simp add: toString_def)
  qed
qed

subsection \<open>The division loop\<close>

lemma divide_loop_props:
  "divide_loop n l = (n', l') \<Longrightarrow>
     n' < 1024 \<and> l \<le> l' \<and> n = n' * 1024 ^ (l' - l) \<and> (\<forall>j < l' - l. 1024 \<le> n / 1024 ^ j)"
proof (induction n l rule: divide_loop.induct)
  case (1 n l)
  show ?case
  proof (cases "1024 \<le> n")
    case True
    with "1.prems" have eq: "divide_loop (n / 1024) (l + 1) = (n', l')"
      by (subst (asm) divide_loop.simps) simp
    from True have c: "1024 \<le> n \<and> l + 1 \<noteq> 0"
      by simp
    from "1.IH" [OF c eq]
    have ih: "n' < 1024" "l + 1 \<le> l'" "n / 1024 = n' * 1024 ^ (l' - (l + 1))"
      "\<forall>j < l' - (l + 1). 1024 \<le> n / 1024 / 1024 ^ j"
      by blast+
    from ih(2) have k: "l' - l = Suc (l' - (l + 1))"
      by simp
    have "n = n' * 1024 ^ (l' - l)"
      using ih(3) by (simp add: k)
    moreover have "\<forall>j < l' - l. 1024 \<le> n / 1024 ^ j"
    proof (intro allI impI)
      fix j assume j: "j < l' - l"
      show "1024 \<le> n / 1024 ^ j"
      proof (cases j)
        case 0
        with True show ?thesis by simp
      next
        case (Suc i)
        with j k have "i < l' - (l + 1)"
          by simp
        with ih(4) have "1024 \<le> n / 1024 / 1024 ^ i"
          by blast
        moreover have "n / 1024 ^ j = n / 1024 / 1024 ^ i"
          by (simp add: Suc)
        ultimately show ?thesis
          by (simp only:)
      qed
    qed
    ultimately show ?thesis
      using ih(1,2) by simp
  next
    case False
    with "1.prems" have "n' = n" "l' = l"
      by (subst (asm) divide_loop.simps, simp)+
    with False show ?thesis
      by simp
  qed
qed

lemma divide_loop_spec_loop: "divide_loop n l = spec_loop n l"
proof (induction n l rule: divide_loop.induct)
  case (1 n l)
  show ?case
  proof (cases "1024 \<le> n")
    case True
    with "1.IH" show ?thesis
      by (subst divide_loop.simps, subst spec_loop.simps) simp
  next
    case False
    then show ?thesis
      by (subst divide_loop.simps, subst spec_loop.simps) simp
  qed
qed

lemma divide_loop_index_bound:
  assumes "divide_loop n 0 = (n', l')" and "n < 10 ^ 21"
  shows "l' \<le> 6"
proof (rule ccontr)
  assume "\<not> l' \<le> 6"
  then have "6 < l' - 0"
    by simp
  with divide_loop_props [OF assms(1)] have "1024 \<le> n / 1024 ^ 6"
    by blast
  then have "1024 ^ 7 \<le> n"
    by simp
  with assms(2) show False
    by simp
qed

lemma divide_loop_no_division: "n < 1024 \<Longrightarrow> divide_loop n l = (n, l)"
  by (subst divide_loop.simps) simp

lemma toFixed_argument_in_range:
  assumes "divide_loop (of_int (or_zero (parseInt (toString bytes)))) 0 = (n, l)"
  shows "\<bar>n\<bar> < 10 ^ 21"
proof -
  define n0 :: rat where "n0 = of_int (or_zero (parseInt (toString bytes)))"
  have "\<bar>or_zero (parseInt (toString bytes))\<bar> < 10 ^ 21"
    by (rule parse_toString_bound)
  then have "\<bar>n0\<bar> < of_int (10 ^ 21)"
    unfolding n0_def of_int_abs [symmetric] by (simp only: of_int_less_iff)
  then have b: "\<bar>n0\<bar> < 10 ^ 21"
    by simp
  from divide_loop_props [OF assms, unfolded diff_zero, folded n0_def]
  have p: "n < 1024" "n0 = n * 1024 ^ l" "\<forall>j<l. 1024 \<le> n0 / 1024 ^ j"
    by blast+
  show ?thesis
  proof (cases l)
    case 0
    with p(2) b show ?thesis
      by simp
  next
    case (Suc k)
    with p(3) have "1024 \<le> n0 / 1024 ^ k"
      by simp
    with p(2) Suc have "1 \<le> n"
      by simp
    with p(1) show ?thesis
      by simp
  qed
qed

subsection \<open>Values of \<^verbatim>\<open>humanReadableSize\<close>\<close>

text \<open>
  For an input below \<open>10^21\<close> in magnitude the method is the loop started at the
  input, and agrees with the algorithm of the specification.
\<close>

lemma humanReadableSize_small:
  assumes "\<bar>b\<bar> < 10 ^ 21" and "divide_loop (of_int b) 0 = (n, l)"
  shows "humanReadableSize b = toFixed n (if n < 10 \<and> 0 < l then 1 else 0) @ '' '' @ unit_at l"
  using assms by (simp add: humanReadableSize_def parse_toString_small)

lemma humanReadableSize_refines_spec:
  assumes "0 \<le> b" and "b < 10 ^ 21"
  shows "humanReadableSize b = humanReadableSize_spec (nat b)"
proof -
  obtain n l where dl: "divide_loop (of_int b) 0 = (n, l)"
    by (cases "divide_loop (of_int b :: rat) 0")
  have "(of_nat (nat b) :: rat) = of_int b"
    using assms(1) by simp
  then have sl: "spec_loop (of_nat (nat b)) 0 = (n, l)"
    using dl by (simp add: divide_loop_spec_loop)
  have "humanReadableSize b = toFixed n (if n < 10 \<and> 0 < l then 1 else 0) @ '' '' @ unit_at l"
    using assms dl by (intro humanReadableSize_small) simp_all
  moreover have "(if n < 10 \<and> 0 < l then 1 else 0) = (if l = 0 \<or> 10 \<le> n then 0 else (1::nat))"
    by auto
  ultimately show ?thesis
    by (simp add: humanReadableSize_spec_def sl)
qed

lemma digits_0: "digits_of 0 = ''0''" by (simp add: digits_of.simps digit_char_def)
lemma digits_1: "digits_of (Suc 0) = ''1''" by (simp add: digits_of.simps digit_char_def)
lemma digits_10: "digits_of 10 = ''10''" by (simp add: digits_of.simps digit_char_def)
lemma digits_15: "digits_of 15 = ''15''" by (simp add: digits_of.simps digit_char_def)
lemma digits_867: "digits_of 867 = ''867''" by (simp add: digits_of.simps digit_char_def)
lemma digits_1023: "digits_of 1023 = ''1023''" by (simp add: digits_of.simps digit_char_def)

lemma hrs_0: "humanReadableSize 0 = ''0 B''"
proof -
  have "divide_loop (of_int 0) 0 = (0, 0)"
    by (simp add: divide_loop.simps)
  from humanReadableSize_small [OF _ this] show ?thesis
    by (simp add: toFixed_def digits_0 unit_at_def units_def)
qed

lemma hrs_1500: "humanReadableSize 1500 = ''1.5 KB''"
proof -
  have "divide_loop (of_int 1500) 0 = (375 / 256, 1)"
    by (simp add: divide_loop.simps)
  from humanReadableSize_small [OF _ this] show ?thesis
    by (simp add: toFixed_def Let_def floor_rat_numeral_div digits_15 unit_at_def units_def)
qed

lemma hrs_10485760: "humanReadableSize 10485760 = ''10 MB''"
proof -
  have "divide_loop (of_int 10485760) 0 = (10, 2)"
    by (simp add: divide_loop.simps)
  from humanReadableSize_small [OF _ this] show ?thesis
    by (simp add: toFixed_def Let_def floor_rat_numeral_div digits_10 unit_at_def units_def)
qed

lemma hrs_1023: "humanReadableSize 1023 = ''1023 B''"
proof -
  have "divide_loop (of_int 1023) 0 = (1023, 0)"
    by (simp add: divide_loop.simps)
  from humanReadableSize_small [OF _ this] show ?thesis
    by (simp add: toFixed_def Let_def floor_rat_numeral_div digits_1023 unit_at_def units_def)
qed

text \<open>
  C4.  The four sample values: \<^verbatim>\<open>0 B\<close> for 0, \<^verbatim>\<open>1.5 KB\<close> for 1500,
  \<^verbatim>\<open>10 MB\<close> for 10485760 and \<^verbatim>\<open>1023 B\<close> for 1023.
\<close>

theorem humanReadableSize_examples:
  "humanReadableSize 0 = ''0 B'' \<and> humanReadableSize 1500 = ''1.5 KB'' \<and>
   humanReadableSize 10485760 = ''10 MB'' \<and> humanReadableSize 1023 = ''1023 B''"
  by (simp only: hrs_0 hrs_1500 hrs_10485760 hrs_1023)

lemma floor_of_int_half: "\<lfloor>(of_int k :: rat) + 1 / 2\<rfloor> = k"
  by (rule floor_unique) simp_all

lemma toFixed_of_int_0:
  "toFixed (of_int k) 0 = (if k < 0 then ''-'' else []) @ digits_of (nat \<bar>k\<bar>)"
  using floor_of_int_half [of "- k"] floor_of_int_half [of k]
  by (simp add: toFixed_def Let_def)

lemma parseInt_1e: "parseInt (CHR ''1'' # CHR ''e'' # rest) = Some 1"
  by (simp add: parseInt_def is_space_def is_digit_def digits_val_def digit_val_def)

lemma nearest_double_1e21: "nearest_double 1000000000000000000000 = 1000000000000000000000"
proof -
  have "bit_length 1000000000000000000000 = 70"
    by (simp add: bit_length.simps)
  then show ?thesis
    by (simp add: nearest_double_def Let_def)
qed

lemma shortest_decimal_1e21: "shortest_decimal 1000000000000000000000 = 1000000000000000000000"
proof -
  have d: "digits_of 1000000000000000000000 = ''1000000000000000000000''"
    by (simp add: digits_of.simps digit_char_def)
  have len: "length (digits_of 1000000000000000000000) = 22"
    by (simp add: d)
  have "bit_length 2000000000000000000000 = 71"
    by (simp add: bit_length.simps)
  then have "nearest_double 2000000000000000000000 = 2000000000000000000000"
    by (simp add: nearest_double_def Let_def)
  then have "round_trip_candidate 1000000000000000000000 1000000000000000000000
               = Some 1000000000000000000000"
    by (simp add: round_trip_candidate_def Let_def nearest_double_1e21)
  then show ?thesis
    by (simp add: shortest_decimal_def len shortest_search.simps)
qed

lemma toString_1e21: "toString 1000000000000000000000 = ''1e+21''"
proof -
  have d: "digits_of 1000000000000000000000 = ''1000000000000000000000''"
    by (simp add: digits_of.simps digit_char_def)
  have len: "length (digits_of 1000000000000000000000) - Suc 0 = 21"
    by (simp add: d)
  have s: "strip_zeros (digits_of 1000000000000000000000) = ''1''"
    by (simp add: d strip_zeros_def)
  have "digits_of 21 = ''21''"
    by (simp add: digits_of.simps digit_char_def)
  then show ?thesis
    by (simp add: toString_def nat_toString_def Let_def nearest_double_1e21
        shortest_decimal_1e21 len s)
qed

text \<open>
  The number nearest to \<open>10^23\<close> is \<open>99999999999999991611392\<close>; it prints as
  \<^verbatim>\<open>1e+23\<close>, and the method returns \<^verbatim>\<open>1 B\<close> for it.
\<close>

lemma toString_1e23: "toString 99999999999999991611392 = ''1e+23''"
proof -
  have b: "bit_length 99999999999999991611392 = 77"
    "bit_length 90000000000000000000000 = 77"
    "bit_length 100000000000000000000000 = 77"
    by (simp_all add: bit_length.simps)
  have n: "nearest_double 99999999999999991611392 = 99999999999999991611392"
    "nearest_double 90000000000000000000000 = 89999999999999995805696"
    "nearest_double 100000000000000000000000 = 99999999999999991611392"
    by (simp_all add: nearest_double_def Let_def b)
  have d: "digits_of 99999999999999991611392 = ''99999999999999991611392''"
    by (simp add: digits_of.simps digit_char_def)
  have len: "length (digits_of 99999999999999991611392) = 23"
    by (simp add: d)
  have "round_trip_candidate 99999999999999991611392 10000000000000000000000
          = Some 100000000000000000000000"
    by (simp add: round_trip_candidate_def Let_def n)
  then have sd: "shortest_decimal 99999999999999991611392 = 100000000000000000000000"
    by (simp add: shortest_decimal_def len shortest_search.simps)
  have d': "digits_of 100000000000000000000000 = ''100000000000000000000000''"
    by (simp add: digits_of.simps digit_char_def)
  have len': "length (digits_of 100000000000000000000000) - Suc 0 = 23"
    by (simp add: d')
  have s: "strip_zeros (digits_of 100000000000000000000000) = ''1''"
    by (simp add: d' strip_zeros_def)
  have "digits_of 23 = ''23''"
    by (simp add: digits_of.simps digit_char_def)
  then show ?thesis
    by (simp add: toString_def nat_toString_def Let_def n(1) sd len' s)
qed

lemma hrs_1e23: "humanReadableSize 99999999999999991611392 = ''1 B''"
proof -
  have "or_zero (parseInt (toString 99999999999999991611392)) = 1"
    by (simp add: toString_1e23 parseInt_1e or_zero_def)
  moreover have "divide_loop 1 0 = (1, 0)"
    by (simp add: divide_loop.simps)
  ultimately show ?thesis
    using toFixed_of_int_0 [of 1]
    by (simp add: humanReadableSize_def digits_1 unit_at_def units_def)
qed

lemma hrs_1e21: "humanReadableSize 1000000000000000000000 = ''1 B''"
proof -
  have "parseInt ''1e+21'' = Some 1"
    by (simp add: parseInt_def is_space_def is_digit_def digits_val_def digit_val_def)
  then have "or_zero (parseInt (toString 1000000000000000000000)) = 1"
    by (simp add: toString_1e21 or_zero_def)
  moreover have "divide_loop 1 0 = (1, 0)"
    by (simp add: divide_loop.simps)
  ultimately show ?thesis
    using toFixed_of_int_0 [of 1]
    by (simp add: humanReadableSize_def digits_1 unit_at_def units_def)
qed

lemma hrs_spec_1e21: "humanReadableSize_spec 1000000000000000000000 = ''867 EB''"
proof -
  have "spec_loop (of_nat 1000000000000000000000) 0 = (3552713678800500929355621337890625 / 4096000000000000000000000000000, 6)"
    by (simp add: spec_loop.simps)
  then show ?thesis
    by (simp add: humanReadableSize_spec_def toFixed_def Let_def floor_rat_numeral_div digits_867 unit_at_def units_def)
qed

lemma hrs_neg_1e21: "humanReadableSize (- 1000000000000000000000) = ''-1 B''"
proof -
  have "parseInt ''-1e+21'' = Some (- 1)"
    by (simp add: parseInt_def is_space_def is_digit_def digits_val_def digit_val_def)
  moreover have "toString (- 1000000000000000000000) = ''-'' @ toString 1000000000000000000000"
    by (simp add: toString_def)
  ultimately have "or_zero (parseInt (toString (- 1000000000000000000000))) = - 1"
    by (simp add: toString_1e21 or_zero_def)
  moreover have "divide_loop (- 1) 0 = (- 1, 0)"
    by (simp add: divide_loop.simps)
  ultimately show ?thesis
    using toFixed_of_int_0 [of "- 1"]
    by (simp add: humanReadableSize_def digits_1 unit_at_def units_def)
qed

lemma humanReadableSize_negative:
  assumes "n < 0" and "- (10 ^ 21) < n"
  shows "humanReadableSize n = ''-'' @ digits_of (nat (- n)) @ '' B''"
proof -
  have "divide_loop (of_int n) 0 = (of_int n, 0)"
    using assms(1) by (intro divide_loop_no_division) simp
  moreover have "\<bar>n\<bar> < 10 ^ 21"
    using assms by simp
  ultimately have "humanReadableSize n = toFixed (of_int n) 0 @ '' '' @ unit_at 0"
    using humanReadableSize_small [of n "of_int n" 0] by simp
  with assms(1) show ?thesis
    by (simp add: toFixed_of_int_0 unit_at_def units_def)
qed

text \<open>
  C3.  At the input \<open>10^21\<close> the method returns \<^verbatim>\<open>1 B\<close>: the number prints as
  \<^verbatim>\<open>1e+21\<close>, of which \<^verbatim>\<open>parseInt\<close> reads the leading \<^verbatim>\<open>1\<close>.  The algorithm as
  specified, started at the input itself, divides six times and gives \<^verbatim>\<open>867 EB\<close>.
\<close>

theorem humanReadableSize_exponent_input:
  "humanReadableSize 1000000000000000000000 = ''1 B'' \<and>
   humanReadableSize_spec 1000000000000000000000 = ''867 EB''"
  by (simp only: hrs_1e21 hrs_spec_1e21)

text \<open>
  Whatever the input, the value the loop starts from, the parsed one, is below \<open>10^21\<close>
  and so below \<open>1024^7\<close>: the loop ends at the first index at which its running value is
  below 1024, that index is at most 6 and inside the unit ladder, and the result ends with
  a space and the unit at that index.  The code has no test for the end of the ladder.
\<close>

lemma humanReadableSize_unit_index_bound:
  "\<exists>n l. divide_loop (of_int (or_zero (parseInt (toString bytes)))) 0 = (n, l)
     \<and> n < 1024
     \<and> of_int (or_zero (parseInt (toString bytes))) = n * 1024 ^ l
     \<and> (\<forall>j<l. 1024 \<le> (of_int (or_zero (parseInt (toString bytes))) :: rat) / 1024 ^ j)
     \<and> l < length units
     \<and> units ! l \<in> set units
     \<and> humanReadableSize bytes = toFixed n (if n < 10 \<and> 0 < l then 1 else 0) @ '' '' @ units ! l
     \<and> suffix ('' '' @ units ! l) (humanReadableSize bytes)"
proof -
  define n0 :: rat where "n0 = of_int (or_zero (parseInt (toString bytes)))"
  obtain n l where dl: "divide_loop n0 0 = (n, l)"
    by (cases "divide_loop n0 0")
  have "\<bar>or_zero (parseInt (toString bytes))\<bar> < 10 ^ 21"
    by (rule parse_toString_bound)
  then have "or_zero (parseInt (toString bytes)) < 10 ^ 21"
    by simp
  then have "n0 < of_int (10 ^ 21)"
    unfolding n0_def by (simp only: of_int_less_iff)
  then have small: "n0 < 10 ^ 21"
    by simp
  from divide_loop_index_bound [OF dl small] have l: "l < length units"
    by (simp add: units_def)
  from divide_loop_props [OF dl, unfolded diff_zero]
  have p: "n < 1024" "n0 = n * 1024 ^ l" "\<forall>j<l. 1024 \<le> n0 / 1024 ^ j"
    by blast+
  have h: "humanReadableSize bytes = toFixed n (if n < 10 \<and> 0 < l then 1 else 0) @ '' '' @ units ! l"
    using dl l by (simp add: humanReadableSize_def n0_def unit_at_def)
  have s: "suffix ('' '' @ units ! l) (humanReadableSize bytes)"
    unfolding h by (rule suffix_appendI) simp
  show ?thesis
    unfolding n0_def [symmetric]
    by (intro exI [of _ n] exI [of _ l] conjI dl p l h s nth_mem [OF l])
qed

lemma humanReadableSize_loop_below_1e21:
  assumes "0 \<le> bytes" and "bytes < 10 ^ 21"
  shows "\<exists>n l. divide_loop (of_int bytes) 0 = (n, l)
     \<and> n < 1024
     \<and> of_int bytes = n * 1024 ^ l
     \<and> (\<forall>j<l. 1024 \<le> (of_int bytes :: rat) / 1024 ^ j)
     \<and> l < length units
     \<and> humanReadableSize bytes = toFixed n (if n < 10 \<and> 0 < l then 1 else 0) @ '' '' @ units ! l"
proof -
  have "\<bar>bytes\<bar> < 10 ^ 21"
    using assms by simp
  then have p: "or_zero (parseInt (toString bytes)) = bytes"
    by (rule parse_toString_small)
  from humanReadableSize_unit_index_bound [of bytes] show ?thesis
    unfolding p by blast
qed

text \<open>
  C5.  At the input \<open>10^21\<close> the loop is started at 1, the digit that \<^verbatim>\<open>parseInt\<close>
  reads off \<^verbatim>\<open>1e+21\<close>, and ends at index 0 at once, although the value of the input
  is at least 1024 at every index below 6: counted from the input, the first index with a
  value below 1024 is 6.  The result \<^verbatim>\<open>1 B\<close> carries the unit of index 0.  This is the
  defect of C3, seen at the loop.
\<close>

theorem humanReadableSize_loop_stops_early:
  "or_zero (parseInt (toString 1000000000000000000000)) = 1
   \<and> divide_loop (of_int (or_zero (parseInt (toString 1000000000000000000000)))) 0 = (1, 0)
   \<and> (1024 :: rat) \<le> of_int 1000000000000000000000 / 1024 ^ 0
   \<and> (1024 :: rat) \<le> of_int 1000000000000000000000 / 1024 ^ 5
   \<and> (of_int 1000000000000000000000 :: rat) / 1024 ^ 6 < 1024
   \<and> snd (spec_loop (of_int 1000000000000000000000) 0) = 6
   \<and> humanReadableSize 1000000000000000000000 = ''1 '' @ units ! 0"
proof -
  have p: "or_zero (parseInt (toString 1000000000000000000000)) = 1"
    by (simp add: toString_1e21 parseInt_1e or_zero_def)
  have dl: "divide_loop (of_int (or_zero (parseInt (toString 1000000000000000000000)))) 0 = (1, 0)"
    by (simp add: p divide_loop.simps)
  have a: "(1024 :: rat) \<le> of_int 1000000000000000000000 / 1024 ^ 0"
    "(1024 :: rat) \<le> of_int 1000000000000000000000 / 1024 ^ 5"
    "(of_int 1000000000000000000000 :: rat) / 1024 ^ 6 < 1024"
    by simp_all
  have s: "snd (spec_loop (of_int 1000000000000000000000) 0) = 6"
    by (simp add: spec_loop.simps)
  have h: "humanReadableSize 1000000000000000000000 = ''1 '' @ units ! 0"
    by (simp add: hrs_1e21 units_def)
  from p dl a s h show ?thesis
    by (intro conjI)
qed

text \<open>
  C9, as stated, fails at \<open>- 10^21\<close>: the result is \<^verbatim>\<open>-1 B\<close>, not the decimal
  rendering of the input.
\<close>

theorem humanReadableSize_negative_counterexample:
  "humanReadableSize (- 1000000000000000000000) = ''-1 B'' \<and>
   humanReadableSize (- 1000000000000000000000) \<noteq> toFixed (- 1000000000000000000000) 0 @ '' B''"
proof -
  have "digits_of 1000000000000000000000 = ''1000000000000000000000''"
    by (simp add: digits_of.simps digit_char_def)
  with toFixed_of_int_0 [of "- 1000000000000000000000"]
  have "toFixed (- 1000000000000000000000) 0 = ''-1000000000000000000000''"
    by simp
  then show ?thesis
    by (simp add: hrs_neg_1e21)
qed

text \<open>
  C9, amended.  For every negative integer \<open>n\<close> above \<open>- 10^21\<close> the loop performs no
  division, the value is not coerced to 0, and the result is the decimal rendering of
  \<open>n\<close> with no decimal place followed by \<^verbatim>\<open> B\<close>.
\<close>

theorem humanReadableSize_negative_input:
  assumes "n < 0" and "- (10 ^ 21) < n"
  shows "or_zero (parseInt (toString n)) = n
     \<and> divide_loop (of_int n) 0 = (of_int n, 0)
     \<and> toFixed (of_int n) 0 = ''-'' @ digits_of (nat (- n))
     \<and> humanReadableSize n = toFixed (of_int n) 0 @ '' B''"
proof -
  have "\<bar>n\<bar> < 10 ^ 21"
    using assms by simp
  then have "or_zero (parseInt (toString n)) = n"
    by (rule parse_toString_small)
  moreover have "divide_loop (of_int n) 0 = (of_int n, 0)"
    using assms(1) by (intro divide_loop_no_division) simp
  moreover have "toFixed (of_int n) 0 = ''-'' @ digits_of (nat (- n))"
    using assms(1) by (simp add: toFixed_of_int_0)
  ultimately show ?thesis
    using humanReadableSize_negative [OF assms] by simp
qed

theorem humanReadableSize_negative_input_witness:
  "(- 5 :: int) < 0 \<and> - (10 ^ 21) < (- 5 :: int) \<and> humanReadableSize (- 5) = ''-5 B''"
proof -
  have a: "(- 5 :: int) < 0" and b: "- (10 ^ 21) < (- 5 :: int)"
    by simp_all
  have "digits_of 5 = ''5''"
    by (simp add: digits_of.simps digit_char_def)
  with humanReadableSize_negative_input [OF a b] show ?thesis
    by simp
qed

subsection \<open>One variant, and the loop over the variants\<close>

lemma resize_calls_resizeImage:
  "resize_calls (resizeImage sharp inputPath outputPath wd ht w) =
     resize_calls w @ [(inputPath, outputPath, wd, ht)]"
  by (simp add: resizeImage_def Let_def split: prod.splits option.splits)

lemma files_resizeImage:
  "files (resizeImage sharp inputPath outputPath wd ht w) =
     snd (sharp (files w) inputPath outputPath wd ht)"
  by (simp add: resizeImage_def Let_def split: prod.splits option.splits)

lemma processVariant_Inr:
  assumes "processVariant sharp self imagePath fn key w = (Inr t, w1)"
  shows "\<exists>dir d sz osz.
           map_of (filePaths self) key = Some dir \<and> map_of mappings key = Some d \<and>
           w1 = resizeImage sharp imagePath (join [dir, fn]) (width d) (height d) w \<and>
           files w1 (join [dir, fn]) = Some sz \<and> files w1 imagePath = Some osz \<and>
           t = \<lparr>path = join [dir, fn], size' = humanReadableSize (int sz),
                 originalSize = humanReadableSize (int osz)\<rparr>"
  using assms
  by (auto simp: processVariant_def statSync_def Let_def split: option.splits sum.splits)

lemma processVariant_calls:
  assumes "processVariant sharp self imagePath fn key w = (r, w1)"
  shows "resize_calls w1 = resize_calls w \<and> (\<forall>t. r \<noteq> Inr t) \<or>
         resize_calls w1 = resize_calls w @
           [(imagePath, join [the (map_of (filePaths self) key), fn],
             width (the (map_of mappings key)), height (the (map_of mappings key)))]"
  using assms
  by (auto simp: processVariant_def statSync_def Let_def resize_calls_resizeImage
      split: option.splits sum.splits)

lemma update_absent: "k \<notin> fst ` set al \<Longrightarrow> AList.update k v al = al @ [(k, v)]"
  by (induction al) auto

lemma loop_keys:
  assumes "processImage_loop sharp self imagePath fn keys result w = (Inr r', w')"
    and "distinct keys" and "set keys \<inter> fst ` set result = {}"
  shows "map fst r' = map fst result @ keys"
  using assms
proof (induction keys arbitrary: result w)
  case Nil
  then show ?case by simp
next
  case (Cons key keys)
  from Cons.prems(1) obtain t w1
    where pv: "processVariant sharp self imagePath fn key w = (Inr t, w1)"
      and rest: "processImage_loop sharp self imagePath fn keys (AList.update key t result) w1 = (Inr r', w')"
    by (auto split: prod.splits sum.splits)
  have absent: "key \<notin> fst ` set result"
    using Cons.prems(3) by auto
  have "set keys \<inter> fst ` set (AList.update key t result) = {}"
    using Cons.prems(2,3) by (auto simp: AList.dom_update)
  with Cons.IH [OF rest] Cons.prems(2)
  have "map fst r' = map fst (AList.update key t result) @ keys"
    by simp
  with absent show ?case
    by (simp add: update_absent)
qed

lemma loop_preserves:
  assumes "processImage_loop sharp self imagePath fn keys result w = (Inr r', w')"
    and "k \<notin> set keys"
  shows "map_of r' k = map_of result k"
  using assms
proof (induction keys arbitrary: result w)
  case Nil
  then show ?case by simp
next
  case (Cons key keys)
  from Cons.prems(1) obtain t w1
    where rest: "processImage_loop sharp self imagePath fn keys (AList.update key t result) w1 = (Inr r', w')"
    by (auto split: prod.splits sum.splits)
  from Cons.IH [OF rest] Cons.prems(2) show ?case
    by (simp add: AList.update_conv')
qed

lemma loop_entry:
  assumes "processImage_loop sharp self imagePath fn keys result w = (Inr r', w')"
    and "distinct keys" and "i < length keys"
  shows "\<exists>t. map_of r' (keys ! i) = Some t \<and>
           processVariant sharp self imagePath fn (keys ! i)
             (snd (processImage_loop sharp self imagePath fn (take i keys) result w))
           = (Inr t, snd (processImage_loop sharp self imagePath fn (take (Suc i) keys) result w))"
  using assms
proof (induction keys arbitrary: result w i)
  case Nil
  then show ?case by simp
next
  case (Cons key keys)
  from Cons.prems(1) obtain t0 w1
    where pv: "processVariant sharp self imagePath fn key w = (Inr t0, w1)"
      and rest: "processImage_loop sharp self imagePath fn keys (AList.update key t0 result) w1 = (Inr r', w')"
    by (auto split: prod.splits sum.splits)
  show ?case
  proof (cases i)
    case 0
    have "map_of r' key = Some t0"
      using loop_preserves [OF rest, of key] Cons.prems(2) by (simp add: AList.update_conv')
    with 0 pv show ?thesis
      by simp
  next
    case (Suc j)
    with Cons.prems have "distinct keys" "j < length keys"
      by simp_all
    from Cons.IH [OF rest this] Suc pv show ?thesis
      by simp
  qed
qed

lemma loop_calls:
  assumes "processImage_loop sharp self imagePath fn keys result w = (r, w')"
  shows "\<exists>n\<le>length keys.
           resize_calls w' = resize_calls w @
             map (\<lambda>k. (imagePath, join [the (map_of (filePaths self) k), fn],
                        width (the (map_of mappings k)), height (the (map_of mappings k))))
               (take n keys) \<and>
           (\<forall>res. r = Inr res \<longrightarrow> n = length keys)"
  using assms
proof (induction keys arbitrary: result w)
  case Nil
  then show ?case by simp
next
  case (Cons key keys)
  obtain r1 w1 where pv: "processVariant sharp self imagePath fn key w = (r1, w1)"
    by (cases "processVariant sharp self imagePath fn key w")
  show ?case
  proof (cases r1)
    case (Inl e)
    with pv Cons.prems have r: "r = Inl e" "w' = w1"
      by simp_all
    from processVariant_calls [OF pv] Inl
    consider "resize_calls w1 = resize_calls w"
      | "resize_calls w1 = resize_calls w @
           [(imagePath, join [the (map_of (filePaths self) key), fn],
             width (the (map_of mappings key)), height (the (map_of mappings key)))]"
      by blast
    then show ?thesis
    proof cases
      case 1
      with r show ?thesis
        by (intro exI [of _ 0]) simp
    next
      case 2
      with r show ?thesis
        by (intro exI [of _ 1]) simp
    qed
  next
    case (Inr t)
    with pv Cons.prems
    have rest: "processImage_loop sharp self imagePath fn keys (AList.update key t result) w1 = (r, w')"
      by simp
    from Cons.IH [OF rest] obtain n where n: "n \<le> length keys"
      "resize_calls w' = resize_calls w1 @
         map (\<lambda>k. (imagePath, join [the (map_of (filePaths self) k), fn],
                    width (the (map_of mappings k)), height (the (map_of mappings k))))
           (take n keys)"
      "\<forall>res. r = Inr res \<longrightarrow> n = length keys"
      by blast
    from processVariant_calls [OF pv] Inr
    have "resize_calls w1 = resize_calls w @
           [(imagePath, join [the (map_of (filePaths self) key), fn],
             width (the (map_of mappings key)), height (the (map_of mappings key)))]"
      by blast
    with n show ?thesis
      by (intro exI [of _ "Suc n"]) simp
  qed
qed

lemma loop_succeeds:
  assumes ok: "\<forall>fs out wd ht. fs imagePath \<noteq> None \<longrightarrow>
                 (\<exists>fs'. sharp fs imagePath out wd ht = (None, fs') \<and> fs' imagePath \<noteq> None \<and> fs' out \<noteq> None)"
    and "\<forall>k\<in>set keys. map_of (filePaths self) k \<noteq> None \<and> map_of mappings k \<noteq> None"
    and "files w imagePath \<noteq> None"
  shows "\<exists>r' w'. processImage_loop sharp self imagePath fn keys result w = (Inr r', w') \<and>
           files w' imagePath \<noteq> None"
  using assms(2,3)
proof (induction keys arbitrary: result w)
  case Nil
  then show ?case by simp
next
  case (Cons key keys)
  from Cons.prems(1) obtain dir d
    where dir: "map_of (filePaths self) key = Some dir" and d: "map_of mappings key = Some d"
    by auto
  from ok Cons.prems(2) obtain fs'
    where s: "sharp (files w) imagePath (join [dir, fn]) (width d) (height d) = (None, fs')"
      and e: "fs' imagePath \<noteq> None" "fs' (join [dir, fn]) \<noteq> None"
    by blast
  define w1 where "w1 = resizeImage sharp imagePath (join [dir, fn]) (width d) (height d) w"
  have f: "files w1 = fs'"
    by (simp add: w1_def files_resizeImage s)
  with e obtain t where "processVariant sharp self imagePath fn key w = (Inr t, w1)"
    by (auto simp: processVariant_def dir d Let_def statSync_def w1_def [symmetric])
  moreover from Cons.IH [of w1 "AList.update key t result"] Cons.prems(1) f e
  obtain r' w' where "processImage_loop sharp self imagePath fn keys (AList.update key t result) w1 = (Inr r', w')"
    "files w' imagePath \<noteq> None"
    by auto
  ultimately show ?case
    by simp
qed

lemmas path_eval = join_def normalize_path_def normalizeString_def normalize_step_def Let_def

lemma config_filePaths_app: "config_filePaths ''/app'' =
  [(''uploadDir'', ''/app/uploads''),
   (''uploadDirTemp'', ''/app/uploads/temp''),
   (''THUMB_50x50'', ''/app/uploads/temp/thumbs/50x50''),
   (''THUMB_150x150'', ''/app/uploads/temp/thumbs/150x150''),
   (''THUMB_250x250'', ''/app/uploads/temp/thumbs/250x250''),
   (''THUMB_500x500'', ''/app/uploads/temp/thumbs/500x500''),
   (''THUMB_1000x1000'', ''/app/uploads/temp/thumbs/1000x1000''),
   (''THUMB_2000x2000'', ''/app/uploads/temp/thumbs/2000x2000'')]"
  by (simp add: config_filePaths_def uploadDir_def path_eval)

subsection \<open>Joining a directory in normal form with a file name\<close>

lemma segments_nonempty: "segments p \<noteq> []"
  by (induction p) (auto split: list.splits)

lemma segments_append_slash: "segments (a @ CHR ''/'' # b) = segments a @ segments b"
proof (induction a)
  case Nil
  then show ?case by simp
next
  case (Cons c cs)
  then show ?case
    using segments_nonempty [of cs] by (cases "segments cs") auto
qed

lemma segments_plain: "CHR ''/'' \<notin> set fn \<Longrightarrow> segments fn = [fn]"
  by (induction fn) auto

lemma join_slash_snoc: "join_slash (R @ [s]) = (if R = [] then s else join_slash R @ ''/'' @ s)"
  by (induction R rule: join_slash.induct) auto

lemma normalizeString_append_plain:
  assumes "fn \<noteq> []" "CHR ''/'' \<notin> set fn" "fn \<noteq> ''.''" "fn \<noteq> ''..''"
  shows "normalizeString (dir @ ''/'' @ fn) allow = normalizeString dir allow @ [fn]"
  using assms
  by (simp add: normalizeString_def segments_append_slash segments_plain normalize_step_def)

lemma join_clean:
  assumes fn: "fn \<noteq> []" "CHR ''/'' \<notin> set fn" "fn \<noteq> ''.''" "fn \<noteq> ''..''"
    and norm: "normalize_path dir = dir"
    and trail: "last dir = CHR ''/'' \<longrightarrow> dir = ''/''"
  shows "join [dir, fn] = (if dir = ''/'' then ''/'' @ fn else if dir = ''.'' then fn else dir @ ''/'' @ fn)"
proof -
  have ne: "dir \<noteq> []"
    using norm by (auto simp: normalize_path_def)
  define ab where "ab = (hd dir = CHR ''/'')"
  define R where "R = normalizeString dir (\<not> ab)"
  have hd: "hd (dir @ ''/'' @ fn) = hd dir"
    using ne by simp
  have "last fn \<in> set fn"
    using fn(1) by (rule last_in_set)
  with fn(2) have "last fn \<noteq> CHR ''/''"
    by auto
  then have last: "last (dir @ ''/'' @ fn) \<noteq> CHR ''/''"
    using fn(1) by simp
  have j: "join [dir, fn] = normalize_path (dir @ ''/'' @ fn)"
    using ne fn(1) by (simp add: join_def)
  have n: "normalize_path (dir @ ''/'' @ fn) = (if ab then ''/'' else []) @ join_slash (R @ [fn])"
    using last hd normalizeString_append_plain [OF fn, of dir "\<not> ab"]
    by (simp add: normalize_path_def Let_def ab_def R_def del: append.simps append_assoc)
  show ?thesis
  proof (cases "dir = ''/''")
    case True
    then have "ab" "R = []"
      by (simp_all add: ab_def R_def normalizeString_def normalize_step_def)
    with True j n show ?thesis
      by simp
  next
    case False
    with trail have nt: "last dir \<noteq> CHR ''/''"
      by simp
    have d: "dir = (if R = [] then (if ab then ''/'' else ''.'')
                    else (if ab then ''/'' else []) @ join_slash R)"
      using norm ne nt by (simp add: normalize_path_def Let_def ab_def R_def split: if_splits)
    show ?thesis
    proof (cases "R = []")
      case True
      with d False have "dir = ''.''" "\<not> ab"
        by (auto split: if_splits)
      with True j n show ?thesis
        by simp
    next
      case nonempty: False
      have "dir \<noteq> ''.''"
      proof
        assume "dir = ''.''"
        then have "R = []"
          by (simp add: R_def normalizeString_def normalize_step_def)
        with nonempty show False by simp
      qed
      moreover from d nonempty have "dir = (if ab then ''/'' else []) @ join_slash R"
        by simp
      then have "(if ab then ''/'' else []) @ join_slash (R @ [fn]) = dir @ ''/'' @ fn"
        using nonempty by (simp add: join_slash_snoc)
      ultimately show ?thesis
        using False j n by simp
    qed
  qed
qed

lemma join_clean_inject:
  assumes fn: "fn \<noteq> []" "CHR ''/'' \<notin> set fn" "fn \<noteq> ''.''" "fn \<noteq> ''..''"
    and "normalize_path d1 = d1" "last d1 = CHR ''/'' \<longrightarrow> d1 = ''/''"
    and "normalize_path d2 = d2" "last d2 = CHR ''/'' \<longrightarrow> d2 = ''/''"
    and eq: "join [d1, fn] = join [d2, fn]"
  shows "d1 = d2"
proof -
  have ne: "d1 \<noteq> []" "d2 \<noteq> []"
    using assms(5,7) by (auto simp: normalize_path_def)
  have len: "\<And>x. length (x @ ''/'' @ fn) \<noteq> length fn" "length (''/'' @ fn) \<noteq> length fn"
    by simp_all
  from eq have "(if d1 = ''/'' then ''/'' @ fn else if d1 = ''.'' then fn else d1 @ ''/'' @ fn)
      = (if d2 = ''/'' then ''/'' @ fn else if d2 = ''.'' then fn else d2 @ ''/'' @ fn)"
    using join_clean [OF fn assms(5,6)] join_clean [OF fn assms(7,8)] by simp
  then show ?thesis
    using ne by (auto split: if_splits dest: arg_cong [where f = length])
qed

subsection \<open>The table, the configuration and the sample run\<close>

lemma distinct_mapping_keys: "distinct (map fst mappings)"
  by (simp add: mappings_def)

lemma mapping_keys:
  "map fst mappings = [''THUMB_50x50'', ''THUMB_150x150'', ''THUMB_250x250'', ''THUMB_500x500'',
     ''THUMB_1000x1000'', ''THUMB_2000x2000'']"
  by (simp add: mappings_def)

lemma mappings_defined: "k \<in> set (map fst mappings) \<Longrightarrow> map_of mappings k \<noteq> None"
  by (auto simp: mappings_def)

lemma config_defined: "k \<in> set (map fst mappings) \<Longrightarrow> map_of (config_filePaths dirname) k \<noteq> None"
  by (auto simp: mappings_def config_filePaths_def)

lemma ImageProcessor_new_filePaths:
  "filePaths (fst (ImageProcessor_new mkdirSync dirname w)) = config_filePaths dirname"
  by (simp add: ImageProcessor_new_def Let_def)

lemma processImage_InrD:
  assumes "processImage sharp self imagePath fn w = (Inr m, w')"
  shows "processImage_loop sharp self imagePath fn (map fst mappings) [] w = (Inr (thumbnails m), w') \<and>
         original m = imagePath"
  using assms by (auto simp: processImage_def split: prod.splits sum.splits)

lemma processImage_returns_manifest:
  assumes "filePaths self = config_filePaths dirname"
    and "files w imagePath \<noteq> None"
    and "\<forall>fs out wd ht. fs imagePath \<noteq> None \<longrightarrow>
           (\<exists>fs'. sharp fs imagePath out wd ht = (None, fs') \<and> fs' imagePath \<noteq> None \<and> fs' out \<noteq> None)"
  shows "\<exists>m w'. processImage sharp self imagePath fn w = (Inr m, w') \<and> files w' imagePath \<noteq> None"
proof -
  have "\<forall>k\<in>set (map fst mappings). map_of (filePaths self) k \<noteq> None \<and> map_of mappings k \<noteq> None"
    using assms(1) config_defined mappings_defined by simp
  from loop_succeeds [where sharp = sharp and imagePath = imagePath and fn = fn and result = "[]",
      OF assms(3) this assms(2)] obtain r' w'
    where "processImage_loop sharp self imagePath fn (map fst mappings) [] w = (Inr r', w')"
      and "files w' imagePath \<noteq> None"
    by blast
  then show ?thesis
    by (simp add: processImage_def)
qed

lemma example_run:
  "fst (processImage example_sharp example_self ''/app/uploads/temp/in.png'' ''in.png'' example_world) =
     Inr example_manifest"
  by (simp add: processImage_def mappings_def processVariant_def config_filePaths_app statSync_def resizeImage_def
      path_eval hrs_1500 hrs_1023)

lemma example_run_calls:
  "resize_calls (snd (processImage example_sharp example_self ''/app/uploads/temp/in.png'' ''in.png'' example_world)) =
     [(''/app/uploads/temp/in.png'', ''/app/uploads/temp/thumbs/50x50/in.png'', 50, 50),
      (''/app/uploads/temp/in.png'', ''/app/uploads/temp/thumbs/150x150/in.png'', 150, 150),
      (''/app/uploads/temp/in.png'', ''/app/uploads/temp/thumbs/250x250/in.png'', 250, 250),
      (''/app/uploads/temp/in.png'', ''/app/uploads/temp/thumbs/500x500/in.png'', 500, 500),
      (''/app/uploads/temp/in.png'', ''/app/uploads/temp/thumbs/1000x1000/in.png'', 1000, 1000),
      (''/app/uploads/temp/in.png'', ''/app/uploads/temp/thumbs/2000x2000/in.png'', 2000, 2000)]"
  by (simp add: processImage_def mappings_def processVariant_def config_filePaths_app statSync_def resizeImage_def
      path_eval hrs_1500 hrs_1023)

subsection \<open>Paths and resize calls of a run\<close>

lemma loop_paths:
  assumes "processImage_loop sharp self imagePath fn keys result w = (Inr r', w')"
    and "distinct keys" and "set keys \<inter> fst ` set result = {}"
  shows "map (\<lambda>(k, t). (k, path t)) r' =
           map (\<lambda>(k, t). (k, path t)) result @
           map (\<lambda>k. (k, join [the (map_of (filePaths self) k), fn])) keys \<and>
         (\<forall>k\<in>set keys. map_of (filePaths self) k \<noteq> None)"
  using assms
proof (induction keys arbitrary: result w)
  case Nil
  then show ?case by simp
next
  case (Cons key keys)
  from Cons.prems(1) obtain t w1
    where pv: "processVariant sharp self imagePath fn key w = (Inr t, w1)"
      and rest: "processImage_loop sharp self imagePath fn keys (AList.update key t result) w1 = (Inr r', w')"
    by (auto split: prod.splits sum.splits)
  from processVariant_Inr [OF pv] obtain dir
    where dir: "map_of (filePaths self) key = Some dir" and p: "path t = join [dir, fn]"
    by auto
  have absent: "key \<notin> fst ` set result"
    using Cons.prems(3) by auto
  have "set keys \<inter> fst ` set (AList.update key t result) = {}"
    using Cons.prems(2,3) by (auto simp: AList.dom_update)
  with Cons.IH [OF rest] Cons.prems(2)
  have "map (\<lambda>(k, t). (k, path t)) r' =
           map (\<lambda>(k, t). (k, path t)) (AList.update key t result) @
           map (\<lambda>k. (k, join [the (map_of (filePaths self) k), fn])) keys"
    and "\<forall>k\<in>set keys. map_of (filePaths self) k \<noteq> None"
    by simp_all
  with absent dir p show ?case
    by (simp add: update_absent)
qed

lemma manifest_paths:
  assumes "processImage sharp self imagePath fn w = (Inr m, w')"
  shows "map (\<lambda>(k, t). (k, path t)) (thumbnails m) =
           map (\<lambda>k. (k, join [the (map_of (filePaths self) k), fn])) (map fst mappings) \<and>
         (\<forall>k\<in>set (map fst mappings). map_of (filePaths self) k \<noteq> None)"
  using loop_paths [OF conjunct1 [OF processImage_InrD [OF assms]] distinct_mapping_keys]
  by simp

lemma manifest_calls:
  assumes "processImage sharp self imagePath fn w = (r, w')"
  shows "\<exists>n\<le>length mappings.
           resize_calls w' = resize_calls w @
             map (\<lambda>(k, d). (imagePath, join [the (map_of (filePaths self) k), fn], width d, height d))
               (take n mappings) \<and>
           (\<forall>m. r = Inr m \<longrightarrow> n = length mappings)"
proof -
  obtain r0 where l: "processImage_loop sharp self imagePath fn (map fst mappings) [] w = (r0, w')"
    and r: "(\<exists>m. r = Inr m) \<longrightarrow> (\<exists>res. r0 = Inr res)"
    using assms by (auto simp: processImage_def split: prod.splits sum.splits)
  from loop_calls [OF l] obtain n where n: "n \<le> length mappings"
    "resize_calls w' = resize_calls w @
       map (\<lambda>k. (imagePath, join [the (map_of (filePaths self) k), fn],
                  width (the (map_of mappings k)), height (the (map_of mappings k))))
         (take n (map fst mappings))"
    "\<forall>res. r0 = Inr res \<longrightarrow> n = length (map fst mappings)"
    by auto
  have "map (\<lambda>k. (imagePath, join [the (map_of (filePaths self) k), fn],
                  width (the (map_of mappings k)), height (the (map_of mappings k))))
         (take n (map fst mappings)) =
        map (\<lambda>(k, d). (imagePath, join [the (map_of (filePaths self) k), fn], width d, height d))
          (take n mappings)"
    using distinct_mapping_keys
    by (auto simp: take_map dest!: in_set_takeD)
  with n r show ?thesis
    by (intro exI [of _ n]) auto
qed

subsection \<open>A resize primitive that changes only its output path\<close>

lemma processVariant_frame:
  assumes "processVariant sharp self imagePath fn key w = (r, w1)"
    and "\<forall>fs i out wd ht p. p \<noteq> out \<longrightarrow> snd (sharp fs i out wd ht) p = fs p"
    and "p \<noteq> join [the (map_of (filePaths self) key), fn]"
  shows "files w1 p = files w p"
  using assms
  by (auto simp: processVariant_def statSync_def Let_def files_resizeImage
      split: option.splits sum.splits)

lemma loop_frame:
  assumes "processImage_loop sharp self imagePath fn keys result w = (r, w')"
    and "\<forall>fs i out wd ht p. p \<noteq> out \<longrightarrow> snd (sharp fs i out wd ht) p = fs p"
    and "p \<notin> set (map (\<lambda>k. join [the (map_of (filePaths self) k), fn]) keys)"
  shows "files w' p = files w p"
  using assms(1,3)
proof (induction keys arbitrary: result w)
  case Nil
  then show ?case by simp
next
  case (Cons key keys)
  obtain r1 w1 where pv: "processVariant sharp self imagePath fn key w = (r1, w1)"
    by (cases "processVariant sharp self imagePath fn key w")
  have f: "files w1 p = files w p"
    using processVariant_frame [OF pv assms(2)] Cons.prems(2) by simp
  show ?case
  proof (cases r1)
    case (Inl e)
    with pv Cons.prems(1) f show ?thesis
      by simp
  next
    case (Inr t)
    with pv Cons.prems(1)
    have "processImage_loop sharp self imagePath fn keys (AList.update key t result) w1 = (r, w')"
      by simp
    from Cons.IH [OF this] Cons.prems(2) f show ?thesis
      by simp
  qed
qed

lemma loop_outputs_exist:
  assumes "processImage_loop sharp self imagePath fn keys result w = (Inr r', w')"
    and "\<forall>fs i out wd ht p. p \<noteq> out \<longrightarrow> snd (sharp fs i out wd ht) p = fs p"
    and "k \<in> set keys"
  shows "files w' (join [the (map_of (filePaths self) k), fn]) \<noteq> None"
  using assms(1,3)
proof (induction keys arbitrary: result w k)
  case Nil
  then show ?case by simp
next
  case (Cons key keys)
  from Cons.prems(1) obtain t w1
    where pv: "processVariant sharp self imagePath fn key w = (Inr t, w1)"
      and rest: "processImage_loop sharp self imagePath fn keys (AList.update key t result) w1 = (Inr r', w')"
    by (auto split: prod.splits sum.splits)
  let ?out = "\<lambda>k. join [the (map_of (filePaths self) k), fn]"
  show ?case
  proof (cases "?out k \<in> set (map ?out keys)")
    case True
    then obtain k' where k': "k' \<in> set keys" "?out k' = ?out k"
      by auto
    from Cons.IH [OF rest k'(1)] k'(2) show ?thesis
      by simp
  next
    case False
    with Cons.prems(2) have "k = key"
      by auto
    moreover from processVariant_Inr [OF pv] have "files w1 (?out key) \<noteq> None"
      by auto
    moreover from loop_frame [OF rest assms(2) False] have "files w' (?out k) = files w1 (?out k)" .
    ultimately show ?thesis
      by simp
  qed
qed

lemma second_run_keeps_domain:
  assumes r1: "processImage sharp1 self imagePath1 fn w1 = (Inr m1, w1')"
    and r2: "processImage sharp2 self imagePath2 fn w1' = (Inr m2, w2')"
    and f1: "\<forall>fs i out wd ht p. p \<noteq> out \<longrightarrow> snd (sharp1 fs i out wd ht) p = fs p"
    and f2: "\<forall>fs i out wd ht p. p \<noteq> out \<longrightarrow> snd (sharp2 fs i out wd ht) p = fs p"
  shows "dom (files w2') = dom (files w1')"
proof -
  let ?out = "\<lambda>k. join [the (map_of (filePaths self) k), fn]"
  note l1 = conjunct1 [OF processImage_InrD [OF r1]]
  note l2 = conjunct1 [OF processImage_InrD [OF r2]]
  have "(files w2' p = None) = (files w1' p = None)" for p
  proof (cases "p \<in> set (map ?out (map fst mappings))")
    case True
    then obtain k where k: "k \<in> set (map fst mappings)" "p = ?out k"
      by auto
    from loop_outputs_exist [OF l1 f1 k(1)] loop_outputs_exist [OF l2 f2 k(1)] k(2)
    show ?thesis
      by auto
  next
    case False
    from loop_frame [OF l2 f2 False] show ?thesis
      by simp
  qed
  then show ?thesis
    by (auto simp: dom_def)
qed

subsection \<open>The manifest\<close>

text \<open>
  C1.  For a processor built from the configuration, an input image that exists and a
  resize primitive that succeeds on it and leaves the derivative on disk,
  \<^verbatim>\<open>processImage\<close> returns a manifest whose thumbnails are keyed by exactly the six
  variant identifiers, one entry each, in table order.
\<close>

theorem processImage_six_thumbnail_entries:
  assumes "filePaths self = config_filePaths dirname"
    and "files w imagePath \<noteq> None"
    and "\<forall>fs out wd ht. fs imagePath \<noteq> None \<longrightarrow>
           (\<exists>fs'. sharp fs imagePath out wd ht = (None, fs') \<and> fs' imagePath \<noteq> None \<and> fs' out \<noteq> None)"
  shows "\<exists>m w'. processImage sharp self imagePath originalFilename w = (Inr m, w')
           \<and> original m = imagePath
           \<and> map fst (thumbnails m) =
               [''THUMB_50x50'', ''THUMB_150x150'', ''THUMB_250x250'', ''THUMB_500x500'',
                ''THUMB_1000x1000'', ''THUMB_2000x2000'']
           \<and> map fst (thumbnails m) = map fst mappings
           \<and> length (thumbnails m) = 6"
proof -
  from processImage_returns_manifest
    [where sharp = sharp and imagePath = imagePath and fn = originalFilename, OF assms]
  obtain m w'
    where run: "processImage sharp self imagePath originalFilename w = (Inr m, w')"
    by blast
  from processImage_InrD [OF run]
  have l: "processImage_loop sharp self imagePath originalFilename (map fst mappings) [] w
             = (Inr (thumbnails m), w')"
    and o: "original m = imagePath"
    by simp_all
  from loop_keys [OF l distinct_mapping_keys] have k: "map fst (thumbnails m) = map fst mappings"
    by simp
  then have "length (map fst (thumbnails m)) = length (map fst mappings)"
    by simp
  then have "length (thumbnails m) = 6"
    by (simp add: mappings_def)
  with run o k show ?thesis
    by (simp add: mapping_keys)
qed

theorem processImage_six_thumbnail_entries_witness:
  "\<exists>m w'. processImage example_sharp example_self ''/app/uploads/temp/in.png'' ''in.png'' example_world
             = (Inr m, w')
         \<and> map fst (thumbnails m) =
             [''THUMB_50x50'', ''THUMB_150x150'', ''THUMB_250x250'', ''THUMB_500x500'',
              ''THUMB_1000x1000'', ''THUMB_2000x2000'']"
proof -
  have a: "filePaths example_self = config_filePaths ''/app''"
    by simp
  have b: "files example_world ''/app/uploads/temp/in.png'' \<noteq> None"
    by simp
  have c: "\<forall>fs out wd ht. fs ''/app/uploads/temp/in.png'' \<noteq> None \<longrightarrow>
             (\<exists>fs'. example_sharp fs ''/app/uploads/temp/in.png'' out wd ht = (None, fs') \<and>
                fs' ''/app/uploads/temp/in.png'' \<noteq> None \<and> fs' out \<noteq> None)"
    by auto
  from processImage_six_thumbnail_entries
    [where sharp = example_sharp and imagePath = "''/app/uploads/temp/in.png''"
       and originalFilename = "''in.png''", OF a b c]
  show ?thesis
    by (elim exE conjE, intro exI conjI) assumption+
qed

text \<open>
  C2.  With an input the resize primitive rejects and no file yet at the first output
  path, \<^verbatim>\<open>resizeImage\<close> logs the failure and returns, but the following
  \<^verbatim>\<open>fs.statSync(outputPath)\<close> throws: \<^verbatim>\<open>processImage\<close> fails with \<^verbatim>\<open>ENOENT\<close>
  after a single resize call, and the other five variants are never attempted.
\<close>

theorem processImage_resize_failure_aborts:
  "processImage failing_sharp example_self ''/app/uploads/temp/in.png'' ''in.png''
     \<lparr>files = [''/app/uploads/temp/in.png'' \<mapsto> 1023], console = [], resize_calls = []\<rparr>
   = (Inl (ENOENT ''/app/uploads/temp/thumbs/50x50/in.png''),
      \<lparr>files = [''/app/uploads/temp/in.png'' \<mapsto> 1023],
       console = [''Failed to resize image. Error: Input file contains unsupported image format''],
       resize_calls = [(''/app/uploads/temp/in.png'', ''/app/uploads/temp/thumbs/50x50/in.png'', 50, 50)]\<rparr>)"
  by (simp add: processImage_def mappings_def processVariant_def config_filePaths_app statSync_def resizeImage_def
      path_eval)

text \<open>
  C6.  In every call that returns a manifest, the size recorded for the \<open>i\<close>-th variant
  is \<^verbatim>\<open>humanReadableSize\<close> of the size that the file system holds for the variant's
  output path in the state right after that variant's resize step, the step being run
  from the state the loop has reached after the first \<open>i\<close> variants.
\<close>

theorem processImage_size_from_stat_after_resize:
  assumes "processImage sharp self imagePath originalFilename w = (Inr m, w')"
    and "i < length mappings"
  shows "\<exists>dir t sz.
           map_of (filePaths self) (fst (mappings ! i)) = Some dir
         \<and> map_of (thumbnails m) (fst (mappings ! i)) = Some t
         \<and> path t = join [dir, originalFilename]
         \<and> files (resizeImage sharp imagePath (path t)
                     (width (snd (mappings ! i))) (height (snd (mappings ! i)))
                     (snd (processImage_loop sharp self imagePath originalFilename
                             (take i (map fst mappings)) [] w)))
               (path t) = Some sz
         \<and> size' t = humanReadableSize (int sz)"
proof -
  from processImage_InrD [OF assms(1)]
  have l: "processImage_loop sharp self imagePath originalFilename (map fst mappings) [] w
             = (Inr (thumbnails m), w')"
    by simp
  have i: "i < length (map fst mappings)"
    using assms(2) by simp
  have key: "map fst mappings ! i = fst (mappings ! i)"
    using assms(2) by simp
  from loop_entry [OF l distinct_mapping_keys i] obtain t w1
    where t: "map_of (thumbnails m) (fst (mappings ! i)) = Some t"
      and pv: "processVariant sharp self imagePath originalFilename (fst (mappings ! i))
                 (snd (processImage_loop sharp self imagePath originalFilename
                         (take i (map fst mappings)) [] w)) = (Inr t, w1)"
    unfolding key by blast
  have "(fst (mappings ! i), snd (mappings ! i)) \<in> set mappings"
    using assms(2) by simp
  then have d: "map_of mappings (fst (mappings ! i)) = Some (snd (mappings ! i))"
    using distinct_mapping_keys by simp
  from processVariant_Inr [OF pv] d obtain dir sz
    where "map_of (filePaths self) (fst (mappings ! i)) = Some dir"
      and "w1 = resizeImage sharp imagePath (join [dir, originalFilename])
                  (width (snd (mappings ! i))) (height (snd (mappings ! i)))
                  (snd (processImage_loop sharp self imagePath originalFilename
                          (take i (map fst mappings)) [] w))"
      and "files w1 (join [dir, originalFilename]) = Some sz"
      and "path t = join [dir, originalFilename]"
      and "size' t = humanReadableSize (int sz)"
    by auto
  with t show ?thesis
    by auto
qed

lemma example_run_pair:
  "processImage example_sharp example_self ''/app/uploads/temp/in.png'' ''in.png'' example_world =
     (Inr example_manifest,
      snd (processImage example_sharp example_self ''/app/uploads/temp/in.png'' ''in.png'' example_world))"
  using example_run by (simp add: prod_eq_iff)

theorem processImage_size_from_stat_after_resize_witness:
  "\<exists>m w' t. processImage example_sharp example_self ''/app/uploads/temp/in.png'' ''in.png'' example_world
               = (Inr m, w')
         \<and> map_of (thumbnails m) ''THUMB_150x150'' = Some t
         \<and> path t = ''/app/uploads/temp/thumbs/150x150/in.png''
         \<and> files example_world (path t) = Some 0
         \<and> size' t = humanReadableSize 1500"
proof -
  have i: "Suc 0 < length mappings"
    by (simp add: mappings_def)
  have k: "mappings ! Suc 0 = (''THUMB_150x150'', \<lparr>width = 150, height = 150\<rparr>)"
    by (simp add: mappings_def)
  have pre: "snd (processImage_loop example_sharp example_self ''/app/uploads/temp/in.png'' ''in.png''
               (take (Suc 0) (map fst mappings)) [] example_world) =
             \<lparr>files = [''/app/uploads/temp/in.png'' \<mapsto> 1023,
                       ''/app/uploads/temp/thumbs/150x150/in.png'' \<mapsto> 0,
                       ''/app/uploads/temp/thumbs/50x50/in.png'' \<mapsto> 1500],
              console = [],
              resize_calls = [(''/app/uploads/temp/in.png'', ''/app/uploads/temp/thumbs/50x50/in.png'', 50, 50)]\<rparr>"
    by (simp add: mappings_def processVariant_def config_filePaths_app statSync_def resizeImage_def path_eval)
  from processImage_size_from_stat_after_resize [OF example_run_pair i] obtain dir t sz
    where d: "map_of (filePaths example_self) (fst (mappings ! Suc 0)) = Some dir"
      and t: "map_of (thumbnails
                example_manifest)
              (fst (mappings ! Suc 0)) = Some t"
      and p: "path t = join [dir, ''in.png'']"
      and f: "files (resizeImage example_sharp ''/app/uploads/temp/in.png'' (path t)
                      (width (snd (mappings ! Suc 0))) (height (snd (mappings ! Suc 0)))
                      (snd (processImage_loop example_sharp example_self ''/app/uploads/temp/in.png''
                              ''in.png'' (take (Suc 0) (map fst mappings)) [] example_world)))
                (path t) = Some sz"
      and s: "size' t = humanReadableSize (int sz)"
    by (elim exE conjE)
  from d have dir: "dir = ''/app/uploads/temp/thumbs/150x150''"
    by (simp add: k config_filePaths_app)
  with p have p': "path t = ''/app/uploads/temp/thumbs/150x150/in.png''"
    by (simp add: path_eval)
  from f have "sz = 1500"
    unfolding pre p' by (simp add: resizeImage_def)
  with s have s': "size' t = humanReadableSize 1500"
    by simp
  from t have t': "map_of (thumbnails
                example_manifest)
              ''THUMB_150x150'' = Some t"
    by (simp only: k fst_conv)
  have w: "files example_world (path t) = Some 0"
    unfolding p' by simp
  from example_run_pair t' p' w s' show ?thesis
    by (intro exI conjI)
qed

lemma manifest_path_list:
  assumes "processImage sharp self imagePath fn w = (Inr m, w')"
  shows "map (path \<circ> snd) (thumbnails m) =
           map (\<lambda>k. join [the (map_of (filePaths self) k), fn]) (map fst mappings)"
proof -
  have "map (path \<circ> snd) (thumbnails m) = map snd (map (\<lambda>(k, t). (k, path t)) (thumbnails m))"
    by (simp add: comp_def case_prod_beta)
  also have "\<dots> = map snd (map (\<lambda>k. (k, join [the (map_of (filePaths self) k), fn])) (map fst mappings))"
    using manifest_paths [OF assms] by simp
  finally show ?thesis
    by (simp add: comp_def)
qed

lemma manifest_call_paths:
  assumes "processImage sharp self imagePath fn w = (Inr m, w')"
  shows "map (fst \<circ> snd) (drop (length (resize_calls w)) (resize_calls w')) =
           map (\<lambda>k. join [the (map_of (filePaths self) k), fn]) (map fst mappings)"
proof -
  from manifest_calls [OF assms]
  have "resize_calls w' = resize_calls w @
          map (\<lambda>(k, d). (imagePath, join [the (map_of (filePaths self) k), fn], width d, height d))
            mappings"
    by auto
  then show ?thesis
    by (simp add: comp_def case_prod_beta)
qed

text \<open>
  C7.  Every path recorded in a manifest is \<^verbatim>\<open>path.join\<close> of the variant's configured
  directory and \<^verbatim>\<open>originalFilename\<close>.  Two invocations on the same processor with the
  same file name, whatever the image, the resize primitive and the state of the file
  system, record the same six paths and hand the same six output paths to the resize
  primitive.  When the primitive changes nothing but the file at its output path, a
  second invocation right after the first leaves the set of existing paths as it was:
  the six files are overwritten, none is added.
\<close>

theorem processImage_output_paths_deterministic:
  assumes "processImage sharp1 self imagePath1 originalFilename w1 = (Inr m1, w1')"
    and "processImage sharp2 self imagePath2 originalFilename w2 = (Inr m2, w2')"
  shows "(\<forall>k t. (k, t) \<in> set (thumbnails m1) \<longrightarrow>
            (\<exists>dir. map_of (filePaths self) k = Some dir \<and> path t = join [dir, originalFilename]))
       \<and> map (\<lambda>(k, t). (k, path t)) (thumbnails m2) = map (\<lambda>(k, t). (k, path t)) (thumbnails m1)
       \<and> map (fst \<circ> snd) (drop (length (resize_calls w1)) (resize_calls w1')) = map (path \<circ> snd) (thumbnails m1)
       \<and> map (fst \<circ> snd) (drop (length (resize_calls w2)) (resize_calls w2')) = map (path \<circ> snd) (thumbnails m1)
       \<and> ((\<forall>fs i out wd ht p. p \<noteq> out \<longrightarrow> snd (sharp1 fs i out wd ht) p = fs p)
            \<and> (\<forall>fs i out wd ht p. p \<noteq> out \<longrightarrow> snd (sharp2 fs i out wd ht) p = fs p)
            \<and> w2 = w1'
          \<longrightarrow> dom (files w2') = dom (files w1'))"
proof -
  have a: "\<forall>k t. (k, t) \<in> set (thumbnails m1) \<longrightarrow>
            (\<exists>dir. map_of (filePaths self) k = Some dir \<and> path t = join [dir, originalFilename])"
  proof (intro allI impI)
    fix k t assume kt: "(k, t) \<in> set (thumbnails m1)"
    then have "(k, path t) \<in> set (map (\<lambda>(k, t). (k, path t)) (thumbnails m1))"
      by force
    with manifest_paths [OF assms(1)]
    have "k \<in> set (map fst mappings)" "path t = join [the (map_of (filePaths self) k), originalFilename]"
      "map_of (filePaths self) k \<noteq> None"
      by auto
    then show "\<exists>dir. map_of (filePaths self) k = Some dir \<and> path t = join [dir, originalFilename]"
      by auto
  qed
  have b: "map (\<lambda>(k, t). (k, path t)) (thumbnails m2) = map (\<lambda>(k, t). (k, path t)) (thumbnails m1)"
    using manifest_paths [OF assms(1)] manifest_paths [OF assms(2)] by simp
  have c: "map (fst \<circ> snd) (drop (length (resize_calls w1)) (resize_calls w1')) = map (path \<circ> snd) (thumbnails m1)"
    using manifest_call_paths [OF assms(1)] manifest_path_list [OF assms(1)] by simp
  have d: "map (fst \<circ> snd) (drop (length (resize_calls w2)) (resize_calls w2')) = map (path \<circ> snd) (thumbnails m1)"
    using manifest_call_paths [OF assms(2)] manifest_path_list [OF assms(1)] by simp
  have e: "(\<forall>fs i out wd ht p. p \<noteq> out \<longrightarrow> snd (sharp1 fs i out wd ht) p = fs p)
            \<and> (\<forall>fs i out wd ht p. p \<noteq> out \<longrightarrow> snd (sharp2 fs i out wd ht) p = fs p)
            \<and> w2 = w1'
          \<longrightarrow> dom (files w2') = dom (files w1')"
  proof (intro impI, elim conjE)
    assume f: "\<forall>fs i out wd ht p. p \<noteq> out \<longrightarrow> snd (sharp1 fs i out wd ht) p = fs p"
      "\<forall>fs i out wd ht p. p \<noteq> out \<longrightarrow> snd (sharp2 fs i out wd ht) p = fs p"
      and "w2 = w1'"
    with assms(2) have "processImage sharp2 self imagePath2 originalFilename w1' = (Inr m2, w2')"
      by simp
    from second_run_keeps_domain [OF assms(1) this f] show "dom (files w2') = dom (files w1')" .
  qed
  from a b c d e show ?thesis
    by (intro conjI)
qed

text \<open>
  C8.  The table holds exactly the six square sizes 50, 150, 250, 500, 1000 and 2000, in
  increasing order, and the resize calls of a run are, in table order, the calls for an
  initial part of the table, each with the width and height of its entry; a run that
  returns a manifest has made the call for every entry.
\<close>

theorem mappings_table_drives_resize:
  assumes "processImage sharp self imagePath originalFilename w = (r, w')"
  shows "map (\<lambda>(k, d). (k, width d, height d)) mappings =
           [(''THUMB_50x50'', 50, 50), (''THUMB_150x150'', 150, 150), (''THUMB_250x250'', 250, 250),
            (''THUMB_500x500'', 500, 500), (''THUMB_1000x1000'', 1000, 1000),
            (''THUMB_2000x2000'', 2000, 2000)]
       \<and> list_all (\<lambda>(k, d). width d = height d) mappings
       \<and> sorted_wrt (<) (map (width \<circ> snd) mappings)
       \<and> (\<exists>n\<le>length mappings.
             resize_calls w' = resize_calls w @
               map (\<lambda>(k, d). (imagePath, join [the (map_of (filePaths self) k), originalFilename],
                               width d, height d))
                 (take n mappings)
             \<and> (\<forall>m. r = Inr m \<longrightarrow> n = length mappings))"
proof -
  have "map (\<lambda>(k, d). (k, width d, height d)) mappings =
           [(''THUMB_50x50'', 50, 50), (''THUMB_150x150'', 150, 150), (''THUMB_250x250'', 250, 250),
            (''THUMB_500x500'', 500, 500), (''THUMB_1000x1000'', 1000, 1000),
            (''THUMB_2000x2000'', 2000, 2000)]"
    by (simp add: mappings_def)
  moreover have "list_all (\<lambda>(k, d). width d = height d) mappings"
    by (simp add: mappings_def)
  moreover have "sorted_wrt (<) (map (width \<circ> snd) mappings)"
    by (simp add: mappings_def)
  ultimately show ?thesis
    using manifest_calls [OF assms] by (intro conjI)
qed

theorem mappings_table_drives_resize_witness:
  "resize_calls (snd (processImage example_sharp example_self ''/app/uploads/temp/in.png'' ''in.png''
                       example_world)) =
     [(''/app/uploads/temp/in.png'', ''/app/uploads/temp/thumbs/50x50/in.png'', 50, 50),
      (''/app/uploads/temp/in.png'', ''/app/uploads/temp/thumbs/150x150/in.png'', 150, 150),
      (''/app/uploads/temp/in.png'', ''/app/uploads/temp/thumbs/250x250/in.png'', 250, 250),
      (''/app/uploads/temp/in.png'', ''/app/uploads/temp/thumbs/500x500/in.png'', 500, 500),
      (''/app/uploads/temp/in.png'', ''/app/uploads/temp/thumbs/1000x1000/in.png'', 1000, 1000),
      (''/app/uploads/temp/in.png'', ''/app/uploads/temp/thumbs/2000x2000/in.png'', 2000, 2000)]"
proof -
  from mappings_table_drives_resize [OF example_run_pair] obtain n
    where "resize_calls (snd (processImage example_sharp example_self ''/app/uploads/temp/in.png''
                               ''in.png'' example_world)) =
             resize_calls example_world @
               map (\<lambda>(k, d). (''/app/uploads/temp/in.png'',
                               join [the (map_of (filePaths example_self) k), ''in.png''],
                               width d, height d))
                 (take n mappings)"
      and "\<forall>m. Inr example_manifest = (Inr m :: error + manifest) \<longrightarrow> n = length mappings"
    by (elim exE conjE)
  then show ?thesis
    by (simp add: mappings_def config_filePaths_app path_eval)
qed

theorem processImage_output_paths_deterministic_witness:
  "\<exists>m1 w1 m2 w2.
      processImage example_sharp example_self ''/app/uploads/temp/in.png'' ''in.png'' example_world = (Inr m1, w1)
    \<and> processImage example_sharp example_self ''/app/uploads/temp/in.png'' ''in.png'' w1 = (Inr m2, w2)
    \<and> map (\<lambda>(k, t). (k, path t)) (thumbnails m2) = map (\<lambda>(k, t). (k, path t)) (thumbnails m1)
    \<and> map (fst \<circ> snd) (drop (length (resize_calls w1)) (resize_calls w2)) =
          [''/app/uploads/temp/thumbs/50x50/in.png'', ''/app/uploads/temp/thumbs/150x150/in.png'',
           ''/app/uploads/temp/thumbs/250x250/in.png'', ''/app/uploads/temp/thumbs/500x500/in.png'',
           ''/app/uploads/temp/thumbs/1000x1000/in.png'', ''/app/uploads/temp/thumbs/2000x2000/in.png'']
    \<and> dom (files w2) = dom (files w1)"
proof -
  define w1 where "w1 = snd (processImage example_sharp example_self ''/app/uploads/temp/in.png''
                               ''in.png'' example_world)"
  have run1: "processImage example_sharp example_self ''/app/uploads/temp/in.png'' ''in.png'' example_world
                = (Inr example_manifest, w1)"
    unfolding w1_def by (rule example_run_pair)
  have a: "filePaths example_self = config_filePaths ''/app''"
    by simp
  have c: "\<forall>fs out wd ht. fs ''/app/uploads/temp/in.png'' \<noteq> None \<longrightarrow>
             (\<exists>fs'. example_sharp fs ''/app/uploads/temp/in.png'' out wd ht = (None, fs') \<and>
                fs' ''/app/uploads/temp/in.png'' \<noteq> None \<and> fs' out \<noteq> None)"
    by auto
  have "files example_world ''/app/uploads/temp/in.png'' \<noteq> None"
    by simp
  from processImage_returns_manifest
    [where sharp = example_sharp and imagePath = "''/app/uploads/temp/in.png''" and fn = "''in.png''",
      OF a this c]
  have b: "files w1 ''/app/uploads/temp/in.png'' \<noteq> None"
    unfolding run1 by simp
  from processImage_returns_manifest
    [where sharp = example_sharp and imagePath = "''/app/uploads/temp/in.png''" and fn = "''in.png''",
      OF a b c]
  obtain m2 w2
    where run2: "processImage example_sharp example_self ''/app/uploads/temp/in.png'' ''in.png'' w1
                   = (Inr m2, w2)"
    by (elim exE conjE)
  note r = processImage_output_paths_deterministic [OF run1 run2]
  have p: "map (\<lambda>(k, t). (k, path t)) (thumbnails m2) = map (\<lambda>(k, t). (k, path t)) (thumbnails example_manifest)"
    using r by (elim conjE)
  have q: "map (fst \<circ> snd) (drop (length (resize_calls w1)) (resize_calls w2)) =
              map (path \<circ> snd) (thumbnails example_manifest)"
    using r by (elim conjE)
  from q have "map (fst \<circ> snd) (drop (length (resize_calls w1)) (resize_calls w2)) =
          [''/app/uploads/temp/thumbs/50x50/in.png'', ''/app/uploads/temp/thumbs/150x150/in.png'',
           ''/app/uploads/temp/thumbs/250x250/in.png'', ''/app/uploads/temp/thumbs/500x500/in.png'',
           ''/app/uploads/temp/thumbs/1000x1000/in.png'', ''/app/uploads/temp/thumbs/2000x2000/in.png'']"
    by simp
  moreover have f: "\<forall>fs i out wd ht p. p \<noteq> out \<longrightarrow> snd (example_sharp fs i out wd ht) p = fs p"
    by simp
  have "dom (files w2) = dom (files w1)"
    using r f by (elim conjE) simp
  ultimately show ?thesis
    using run1 run2 p by (intro exI conjI)
qed

text \<open>
  C10, as stated, fails: with the six distinct directories of the configuration and the
  file name \<^verbatim>\<open>../x.png\<close>, \<^verbatim>\<open>path.join\<close> resolves all six output paths to the same
  file.
\<close>

theorem processImage_paths_distinct_counterexample:
  "distinct (map (map_of (filePaths example_self)) (map fst mappings))
   \<and> fst (processImage example_sharp example_self ''/app/uploads/temp/in.png'' ''../x.png'' example_world) =
       Inr \<lparr>original = ''/app/uploads/temp/in.png'',
            thumbnails =
              [(''THUMB_50x50'', \<lparr>path = ''/app/uploads/temp/thumbs/x.png'', size' = ''1.5 KB'', originalSize = ''1023 B''\<rparr>),
               (''THUMB_150x150'', \<lparr>path = ''/app/uploads/temp/thumbs/x.png'', size' = ''1.5 KB'', originalSize = ''1023 B''\<rparr>),
               (''THUMB_250x250'', \<lparr>path = ''/app/uploads/temp/thumbs/x.png'', size' = ''1.5 KB'', originalSize = ''1023 B''\<rparr>),
               (''THUMB_500x500'', \<lparr>path = ''/app/uploads/temp/thumbs/x.png'', size' = ''1.5 KB'', originalSize = ''1023 B''\<rparr>),
               (''THUMB_1000x1000'', \<lparr>path = ''/app/uploads/temp/thumbs/x.png'', size' = ''1.5 KB'', originalSize = ''1023 B''\<rparr>),
               (''THUMB_2000x2000'', \<lparr>path = ''/app/uploads/temp/thumbs/x.png'', size' = ''1.5 KB'', originalSize = ''1023 B''\<rparr>)]\<rparr>"
proof -
  have "distinct (map (map_of (filePaths example_self)) (map fst mappings))"
    by (simp add: mappings_def config_filePaths_app)
  moreover have "fst (processImage example_sharp example_self ''/app/uploads/temp/in.png'' ''../x.png'' example_world) =
       Inr \<lparr>original = ''/app/uploads/temp/in.png'',
            thumbnails =
              [(''THUMB_50x50'', \<lparr>path = ''/app/uploads/temp/thumbs/x.png'', size' = ''1.5 KB'', originalSize = ''1023 B''\<rparr>),
               (''THUMB_150x150'', \<lparr>path = ''/app/uploads/temp/thumbs/x.png'', size' = ''1.5 KB'', originalSize = ''1023 B''\<rparr>),
               (''THUMB_250x250'', \<lparr>path = ''/app/uploads/temp/thumbs/x.png'', size' = ''1.5 KB'', originalSize = ''1023 B''\<rparr>),
               (''THUMB_500x500'', \<lparr>path = ''/app/uploads/temp/thumbs/x.png'', size' = ''1.5 KB'', originalSize = ''1023 B''\<rparr>),
               (''THUMB_1000x1000'', \<lparr>path = ''/app/uploads/temp/thumbs/x.png'', size' = ''1.5 KB'', originalSize = ''1023 B''\<rparr>),
               (''THUMB_2000x2000'', \<lparr>path = ''/app/uploads/temp/thumbs/x.png'', size' = ''1.5 KB'', originalSize = ''1023 B''\<rparr>)]\<rparr>"
    by (simp add: processImage_def mappings_def processVariant_def config_filePaths_app statSync_def resizeImage_def
        path_eval hrs_1500 hrs_1023)
  ultimately show ?thesis
    by (rule conjI)
qed

text \<open>
  C10, amended.  When \<^verbatim>\<open>originalFilename\<close> is a single path segment (not empty, without
  \<^verbatim>\<open>/\<close>, and neither \<^verbatim>\<open>.\<close> nor \<^verbatim>\<open>..\<close>) and the six configured directories are
  pairwise distinct, each in the normal form of \<^verbatim>\<open>path.join\<close> and without a trailing
  separator (the root apart), the six recorded output paths are pairwise distinct.
\<close>

theorem processImage_paths_distinct:
  assumes run: "processImage sharp self imagePath originalFilename w = (Inr m, w')"
    and fn: "originalFilename \<noteq> []" "CHR ''/'' \<notin> set originalFilename"
      "originalFilename \<noteq> ''.''" "originalFilename \<noteq> ''..''"
    and clean: "\<forall>k\<in>set (map fst mappings). \<forall>dir. map_of (filePaths self) k = Some dir \<longrightarrow>
                  normalize_path dir = dir \<and> (last dir = CHR ''/'' \<longrightarrow> dir = ''/'')"
    and dirs: "distinct (map (map_of (filePaths self)) (map fst mappings))"
  shows "distinct (map (path \<circ> snd) (thumbnails m))"
proof -
  have defined: "\<forall>k\<in>set (map fst mappings). map_of (filePaths self) k \<noteq> None"
    using manifest_paths [OF run] by simp
  have "inj_on (\<lambda>k. join [the (map_of (filePaths self) k), originalFilename]) (set (map fst mappings))"
  proof (rule inj_onI)
    fix k1 k2
    assume k: "k1 \<in> set (map fst mappings)" "k2 \<in> set (map fst mappings)"
      and eq: "join [the (map_of (filePaths self) k1), originalFilename] =
               join [the (map_of (filePaths self) k2), originalFilename]"
    from k defined have "map_of (filePaths self) k1 \<noteq> None" "map_of (filePaths self) k2 \<noteq> None"
      by blast+
    then obtain d1 d2
      where d: "map_of (filePaths self) k1 = Some d1" "map_of (filePaths self) k2 = Some d2"
      by auto
    with k clean have c: "normalize_path d1 = d1" "last d1 = CHR ''/'' \<longrightarrow> d1 = ''/''"
      "normalize_path d2 = d2" "last d2 = CHR ''/'' \<longrightarrow> d2 = ''/''"
      by blast+
    from eq d have "join [d1, originalFilename] = join [d2, originalFilename]"
      by simp
    from join_clean_inject [OF fn c this] d
    have "map_of (filePaths self) k1 = map_of (filePaths self) k2"
      by simp
    with dirs k show "k1 = k2"
      by (simp only: distinct_map inj_on_def)
  qed
  with distinct_mapping_keys
  have "distinct (map (\<lambda>k. join [the (map_of (filePaths self) k), originalFilename]) (map fst mappings))"
    by (simp only: distinct_map)
  then show ?thesis
    by (simp only: manifest_path_list [OF run])
qed

theorem processImage_paths_distinct_witness:
  "distinct (map (path \<circ> snd) (thumbnails example_manifest))
   \<and> fst (processImage example_sharp example_self ''/app/uploads/temp/in.png'' ''in.png'' example_world)
       = Inr example_manifest"
proof -
  have fn: "''in.png'' \<noteq> []" "CHR ''/'' \<notin> set ''in.png''" "''in.png'' \<noteq> ''.''" "''in.png'' \<noteq> ''..''"
    by simp_all
  have clean: "\<forall>k\<in>set (map fst mappings). \<forall>dir. map_of (filePaths example_self) k = Some dir \<longrightarrow>
                  normalize_path dir = dir \<and> (last dir = CHR ''/'' \<longrightarrow> dir = ''/'')"
    by (simp add: mappings_def config_filePaths_app path_eval)
  have dirs: "distinct (map (map_of (filePaths example_self)) (map fst mappings))"
    by (simp add: mappings_def config_filePaths_app)
  from processImage_paths_distinct [OF example_run_pair fn clean dirs] example_run
  show ?thesis
    by (rule conjI)
qed

end
